theory Spec2Isabelle
  imports Complex_Main
begin

section \<open>Path generation (src/App.tsx)\<close>

text \<open>
  A \<^verbatim>\<open>Point\<close> is \<^verbatim>\<open>{ x: number; y: number }\<close>. Every point the program builds has
  integer coordinates (the constants of \<^verbatim>\<open>generateWindingPath\<close> and steps of
  \<^verbatim>\<open>Math.sign\<close>), so the coordinates are modelled as \<^typ>\<open>int\<close>.
\<close>

record Point =
  px :: int
  py :: int

text \<open>
  \<^verbatim>\<open>Math.random()\<close> is modelled by an oracle: the sequence of the values the successive
  calls return. A function that draws takes the number of values drawn so far and returns
  the new count with its result, so that every outcome of the random choices is one oracle.
\<close>

type_synonym random = "nat \<Rightarrow> real"

text \<open>
  The body of the \<^verbatim>\<open>while\<close> loop of \<^verbatim>\<open>connectPoints\<close> (App.tsx, lines 39-61), in
  two parts: the choice of the axis (lines 43-52; only the last branch draws a random
  value) and the move (lines 54-61).
\<close>

definition chooseMoveX :: "random \<Rightarrow> nat \<Rightarrow> int \<Rightarrow> int \<Rightarrow> bool \<times> nat" where
  "chooseMoveX rnd k dx dy =
     (if \<bar>dx\<bar> > \<bar>dy\<bar> then (True, k)
      else if \<bar>dy\<bar> > \<bar>dx\<bar> then (False, k)
      else (rnd k > 1 / 2, Suc k))"

definition moveStep :: "bool \<Rightarrow> int \<Rightarrow> int \<Rightarrow> Point \<Rightarrow> Point" where
  "moveStep moveX dx dy cur =
     (if moveX \<and> dx \<noteq> 0 then cur\<lparr>px := px cur + sgn dx\<rparr>
      else if dy \<noteq> 0 then cur\<lparr>py := py cur + sgn dy\<rparr>
      else if dx \<noteq> 0 then cur\<lparr>px := px cur + sgn dx\<rparr>
      else cur)"

definition loopBody :: "random \<Rightarrow> Point \<Rightarrow> nat \<times> Point \<Rightarrow> nat \<times> Point" where
  "loopBody rnd p2 st =
     (case st of (k, cur) \<Rightarrow>
        let dx = px p2 - px cur;
            dy = py p2 - py cur
        in case chooseMoveX rnd k dx dy of (moveX, k') \<Rightarrow> (k', moveStep moveX dx dy cur))"

text \<open>The remaining distance to the target: the variant of the loop.\<close>

definition remaining :: "Point \<Rightarrow> Point \<Rightarrow> nat" where
  "remaining p2 cur = nat (\<bar>px p2 - px cur\<bar> + \<bar>py p2 - py cur\<bar>)"

lemma moveStep_cases:
  assumes "px cur \<noteq> px p2 \<or> py cur \<noteq> py p2"
    and "loopBody rnd p2 (k, cur) = (k', cur')"
  shows "(\<bar>px p2 - px cur'\<bar> = \<bar>px p2 - px cur\<bar> - 1 \<and> py cur' = py cur \<and>
            \<bar>px cur' - px cur\<bar> = 1)
       \<or> (\<bar>py p2 - py cur'\<bar> = \<bar>py p2 - py cur\<bar> - 1 \<and> px cur' = px cur \<and>
            \<bar>py cur' - py cur\<bar> = 1)"
  using assms
  by (auto simp: loopBody_def chooseMoveX_def moveStep_def Let_def sgn_if
      split: if_splits prod.splits)

lemma loopBody_remaining:
  assumes "px cur \<noteq> px p2 \<or> py cur \<noteq> py p2"
    and "loopBody rnd p2 (k, cur) = (k', cur')"
  shows "Suc (remaining p2 cur') = remaining p2 cur"
  using moveStep_cases [OF assms] by (auto simp: remaining_def)

lemma loopBody_decreases:
  assumes "px cur \<noteq> px p2 \<or> py cur \<noteq> py p2"
    and "(k', cur') = loopBody rnd p2 (k, cur)"
  shows "remaining p2 cur' < remaining p2 cur"
  using loopBody_remaining [OF assms(1) assms(2) [symmetric]] by simp

text \<open>
  The loop of \<^verbatim>\<open>connectPoints\<close> (lines 38-64) with its state: the random values drawn,
  \<^verbatim>\<open>curr\<close> and \<^verbatim>\<open>segment\<close>.
\<close>

function connectPoints_loop ::
  "random \<Rightarrow> Point \<Rightarrow> nat \<Rightarrow> Point \<Rightarrow> Point list \<Rightarrow> nat \<times> Point list" where
  "connectPoints_loop rnd p2 k cur segment =
     (if px cur \<noteq> px p2 \<or> py cur \<noteq> py p2 then
        (case loopBody rnd p2 (k, cur) of
           (k', cur') \<Rightarrow> connectPoints_loop rnd p2 k' cur' (segment @ [cur']))
      else (k, segment))"
  by pat_completeness auto
termination
proof (relation "measure (\<lambda>(rnd, p2, k, cur, segment). remaining p2 cur)")
  show "wf (measure (\<lambda>(rnd, p2, k, cur, segment). remaining p2 cur))"
    by simp
qed (auto intro: loopBody_decreases)

declare connectPoints_loop.simps [simp del]

definition connectPoints :: "random \<Rightarrow> nat \<Rightarrow> Point \<Rightarrow> Point \<Rightarrow> nat \<times> Point list" where
  "connectPoints rnd k p1 p2 = connectPoints_loop rnd p2 k p1 []"

text \<open>
  The same loop with no termination argument built in: not returning is the value
  \<open>None\<close>.
\<close>

partial_function (option) connectPoints_while ::
  "random \<Rightarrow> Point \<Rightarrow> nat \<times> Point \<times> Point list \<Rightarrow> (nat \<times> Point list) option" where
  "connectPoints_while rnd p2 st =
     (case st of (k, cur, segment) \<Rightarrow>
        if px cur \<noteq> px p2 \<or> py cur \<noteq> py p2 then
          (case loopBody rnd p2 (k, cur) of
             (k', cur') \<Rightarrow> connectPoints_while rnd p2 (k', cur', segment @ [cur']))
        else Some (k, segment))"

text \<open>
  \<^verbatim>\<open>generateWindingPath\<close> (lines 14-75): the fixed waypoints, and the \<^verbatim>\<open>for\<close> loop over
  the consecutive pairs of waypoints, which appends each segment to \<^verbatim>\<open>fullPath\<close>.
\<close>

definition waypoints :: "Point \<Rightarrow> Point \<Rightarrow> Point list" where
  "waypoints start endp =
     [start,
      \<lparr>px = 2, py = 12\<rparr>,
      \<lparr>px = 6, py = 12\<rparr>,
      \<lparr>px = 6, py = 9\<rparr>,
      \<lparr>px = 2, py = 9\<rparr>,
      \<lparr>px = 2, py = 5\<rparr>,
      \<lparr>px = 10, py = 5\<rparr>,
      \<lparr>px = 10, py = 10\<rparr>,
      \<lparr>px = 13, py = 10\<rparr>,
      \<lparr>px = 13, py = 3\<rparr>,
      endp]"

fun connectSegments :: "random \<Rightarrow> nat \<Rightarrow> Point list \<Rightarrow> Point list \<Rightarrow> nat \<times> Point list" where
  "connectSegments rnd k (p1 # p2 # ws) fullPath =
     (case connectPoints rnd k p1 p2 of
        (k', segment) \<Rightarrow> connectSegments rnd k' (p2 # ws) (fullPath @ segment))"
| "connectSegments rnd k ws fullPath = (k, fullPath)"

definition generateWindingPath :: "random \<Rightarrow> nat \<Rightarrow> Point \<Rightarrow> Point \<Rightarrow> nat \<times> Point list" where
  "generateWindingPath rnd k start endp = connectSegments rnd k (waypoints start endp) [start]"

text \<open>
  Two cells of the grid are adjacent when they differ by exactly one unit on exactly one
  axis.
\<close>

definition adjacent :: "Point \<Rightarrow> Point \<Rightarrow> bool" where
  "adjacent p q =
     ((\<bar>px q - px p\<bar> = 1 \<and> py q = py p) \<or> (px q = px p \<and> \<bar>py q - py p\<bar> = 1))"

text \<open>
  The number of iterations all calls of \<^verbatim>\<open>connectPoints\<close> make for a list of waypoints:
  the sum of the distances between consecutive waypoints.
\<close>

fun totalSteps :: "Point list \<Rightarrow> nat" where
  "totalSteps (p1 # p2 # ws) = remaining p2 p1 + totalSteps (p2 # ws)"
| "totalSteps ws = 0"

section \<open>The cyclist (src/components/IsoMap.tsx)\<close>

text \<open>
  \<^verbatim>\<open>getCheckpointIndices\<close> (lines 27-36). The source computes
  \<^verbatim>\<open>Math.floor(totalPathLength * (i / 6))\<close> on doubles; the model takes the floor of the
  exact product. At the length 47 of the paths that \<^verbatim>\<open>createInitialState\<close> generates
  no product \<open>47 * i / 6\<close> is an integer, so the rounding of the doubles does not change
  the floor.
\<close>

definition CHECKPOINT_COUNT :: nat where
  "CHECKPOINT_COUNT = 5"

definition getCheckpointIndices :: "nat \<Rightarrow> int list" where
  "getCheckpointIndices totalPathLength =
     map (\<lambda>i. \<lfloor>real totalPathLength * (real i / real (CHECKPOINT_COUNT + 1))\<rfloor>)
       [1..<CHECKPOINT_COUNT + 1]"

text \<open>\<^verbatim>\<open>Array.prototype.indexOf\<close>: the first position of the value, or \<open>-1\<close>.\<close>

fun indexOf :: "int list \<Rightarrow> int \<Rightarrow> int" where
  "indexOf [] v = - 1"
| "indexOf (a # as) v =
     (if a = v then 0 else (let r = indexOf as v in if r = - 1 then - 1 else r + 1))"

text \<open>
  The arithmetic of the frame callback. The source evaluates
  \<^verbatim>\<open>progress + speed * delta\<close> in IEEE doubles: the product is rounded to a double, and so
  is the sum. The values of the model are real numbers (every finite double is one), and the
  rounding is a parameter \<open>fl\<close> of the model: \<open>fl x\<close> is the double an operation returns
  whose exact result is \<open>x\<close>. A theorem that holds for every \<open>fl\<close> holds for the rounding
  of the doubles; where a proof needs a property of the rounding, the property is a
  hypothesis of the theorem. (An operation that overflows returns \<^verbatim>\<open>Infinity\<close>, which the
  callback treats as it treats every value beyond the last path index and beyond every
  checkpoint index; a rounding that returns the largest double there has the same runs.)
  \<open>speed\<close> is the double that the literal \<^verbatim>\<open>1.2\<close> denotes. \<^verbatim>\<open>Math.floor\<close>, the
  comparisons and \<^verbatim>\<open>totalDistance - 1\<close> are exact on doubles.
\<close>

type_synonym rounding = "real \<Rightarrow> real"

definition speed :: real where
  "speed = 5404319552844595 / 4503599627370496"

text \<open>
  The state of one mounted \<^verbatim>\<open>Cyclist\<close> (lines 52-54). \<^verbatim>\<open>progress\<close> is React state
  (\<^verbatim>\<open>useState\<close>): the frame callback reads, through its closure, the value that the last
  render of the component returned, and \<^verbatim>\<open>setProgress\<close> only queues the new value for the
  next render. \<open>progress\<close> is the value of the last render and \<open>pendingProgress\<close> the
  value queued since, if any (a later \<^verbatim>\<open>setProgress\<close> replaces an earlier one). The two
  refs are written at once.
\<close>

record Cyclist =
  progress :: real
  pendingProgress :: "real option"
  lastTriggeredCheckpoint :: int
  hasFinished :: bool

definition mountCyclist :: Cyclist where
  "mountCyclist =
     \<lparr>progress = 0, pendingProgress = None, lastTriggeredCheckpoint = - 1, hasFinished = False\<rparr>"

text \<open>
  A render of the component: \<^verbatim>\<open>useState\<close> returns the queued value, and the frame
  callback is replaced by the closure of this render.
\<close>

definition renderProgress :: "Cyclist \<Rightarrow> Cyclist" where
  "renderProgress c =
     c\<lparr>progress := (case pendingProgress c of None \<Rightarrow> progress c | Some v \<Rightarrow> v),
       pendingProgress := None\<rparr>"

text \<open>The value of the state with the queued update applied: what the next render returns.\<close>

definition currentProgress :: "Cyclist \<Rightarrow> real" where
  "currentProgress c = (case pendingProgress c of None \<Rightarrow> progress c | Some v \<Rightarrow> v)"

text \<open>The callbacks a frame may invoke, in the order of their invocation.\<close>

datatype callback = ReachCheckpoint int | Finish

text \<open>
  What one call of the frame callback reads from outside the state of the component: whether
  the ref \<^verbatim>\<open>group.current\<close> is attached, the prop \<^verbatim>\<open>isPaused\<close> of the render whose closure
  the callback is, and the elapsed time \<^verbatim>\<open>delta\<close>.
\<close>

record frame =
  groupAttached :: bool
  isPaused :: bool
  delta :: real

text \<open>
  The callback of \<^verbatim>\<open>useFrame\<close> (lines 62-148), restricted to what it does to the state
  of the component and to the callbacks it invokes: the early return (line 63), the
  movement logic (lines 97-108) and the checkpoint trigger logic (lines 110-123). The
  animation of the wheels and of the body and the update of the position (lines 71-94,
  126-147) write to the scene only.
\<close>

definition useFrame ::
  "Point list \<Rightarrow> rounding \<Rightarrow> frame \<Rightarrow> Cyclist \<Rightarrow> Cyclist \<times> callback list" where
  "useFrame path fl f c =
     (if \<not> groupAttached f \<or> length path < 2 then (c, [])
      else if \<not> isPaused f \<and> \<not> hasFinished c then
        (let totalDistance = length path;
             newProgress = fl (progress c + fl (speed * delta f));
             (c1, cb1) =
               (if newProgress \<ge> real totalDistance - 1
                then (c\<lparr>pendingProgress := Some (real totalDistance - 1), hasFinished := True\<rparr>,
                      [Finish])
                else (c\<lparr>pendingProgress := Some newProgress\<rparr>, []));
             checkpointIndices = getCheckpointIndices (length path);
             currentIndex = \<lfloor>newProgress\<rfloor>;
             cpIndex = indexOf checkpointIndices currentIndex
         in if cpIndex \<noteq> - 1 then
              (if lastTriggeredCheckpoint c1 \<noteq> currentIndex
               then (c1\<lparr>lastTriggeredCheckpoint := currentIndex\<rparr>,
                     cb1 @ [ReachCheckpoint cpIndex])
               else (c1, cb1))
            else
              (if currentIndex \<notin> set checkpointIndices
               then (c1\<lparr>lastTriggeredCheckpoint := - 1\<rparr>, cb1)
               else (c1, cb1)))
      else (c, []))"

text \<open>
  A run of one mounted cyclist: a list of ticks, each a call of the frame callback or a
  render of the component. Renders may come between any two calls, or not: two calls with
  no render between them read the same \<open>progress\<close>. \<open>stateAt path fl ts j\<close> is the
  state before tick \<open>j\<close> and \<open>emitted path fl ts j\<close> the callbacks tick \<open>j\<close> invokes.
  A restart mounts a new cyclist, so a run has no restart in it.
\<close>

datatype tick = Callback frame | Render

definition tickStep :: "Point list \<Rightarrow> rounding \<Rightarrow> Cyclist \<Rightarrow> tick \<Rightarrow> Cyclist" where
  "tickStep path fl c t =
     (case t of Callback f \<Rightarrow> fst (useFrame path fl f c) | Render \<Rightarrow> renderProgress c)"

definition runTicks :: "Point list \<Rightarrow> rounding \<Rightarrow> tick list \<Rightarrow> Cyclist" where
  "runTicks path fl ts = foldl (tickStep path fl) mountCyclist ts"

definition stateAt :: "Point list \<Rightarrow> rounding \<Rightarrow> tick list \<Rightarrow> nat \<Rightarrow> Cyclist" where
  "stateAt path fl ts j = runTicks path fl (take j ts)"

definition emitted :: "Point list \<Rightarrow> rounding \<Rightarrow> tick list \<Rightarrow> nat \<Rightarrow> callback list" where
  "emitted path fl ts j =
     (case ts ! j of
        Callback f \<Rightarrow> snd (useFrame path fl f (stateAt path fl ts j))
      | Render \<Rightarrow> [])"

text \<open>
  Tick \<open>j\<close> is a call that runs the movement logic (the cyclist is Running); the
  \<^verbatim>\<open>newProgress\<close> the call of tick \<open>j\<close> computes; the floored index its checkpoint logic
  looks at; and the elapsed time of a tick.
\<close>

definition running :: "Point list \<Rightarrow> rounding \<Rightarrow> tick list \<Rightarrow> nat \<Rightarrow> bool" where
  "running path fl ts j =
     (case ts ! j of
        Callback f \<Rightarrow>
          2 \<le> length path \<and> groupAttached f \<and> \<not> isPaused f \<and>
          \<not> hasFinished (stateAt path fl ts j)
      | Render \<Rightarrow> False)"

definition newProgressAt :: "Point list \<Rightarrow> rounding \<Rightarrow> tick list \<Rightarrow> nat \<Rightarrow> real" where
  "newProgressAt path fl ts j =
     (case ts ! j of
        Callback f \<Rightarrow> fl (progress (stateAt path fl ts j) + fl (speed * delta f))
      | Render \<Rightarrow> progress (stateAt path fl ts j))"

definition indexAt :: "Point list \<Rightarrow> rounding \<Rightarrow> tick list \<Rightarrow> nat \<Rightarrow> int" where
  "indexAt path fl ts j = \<lfloor>newProgressAt path fl ts j\<rfloor>"

definition tickDelta :: "tick \<Rightarrow> real" where
  "tickDelta t = (case t of Callback f \<Rightarrow> delta f | Render \<Rightarrow> 0)"

section \<open>The grid and the application state (src/App.tsx)\<close>

text \<open>
  Modelled from the spec: \<^verbatim>\<open>types.ts\<close>, which declares \<^verbatim>\<open>BuildingType\<close>, \<^verbatim>\<open>TileData\<close> and
  \<^verbatim>\<open>Grid\<close>, is not among the sources. The spec gives the building types as the closed
  set None, Road, Residential, Commercial, Industrial, Park (the keys of \<^verbatim>\<open>BUILDINGS\<close>
  in the constants) and a tile as \<^verbatim>\<open>{x, y, buildingType}\<close>; the grid is an array of rows
  of tiles, indexed \<^verbatim>\<open>grid[y][x]\<close>. The constructor for None and the fields \<^verbatim>\<open>x\<close> and
  \<^verbatim>\<open>y\<close> are renamed.
\<close>

datatype BuildingType = None' | Road | Residential | Commercial | Industrial | Park

record TileData =
  tx :: nat
  ty :: nat
  buildingType :: BuildingType

type_synonym Grid = "TileData list list"

definition GRID_SIZE :: nat where
  "GRID_SIZE = 15"

text \<open>
  \<^verbatim>\<open>createInitialState\<close> (lines 78-118). \<^verbatim>\<open>pathSet\<close> holds the keys \<^verbatim>\<open>`${p.x},${p.y}`\<close>;
  two integer points have the same key exactly when they have the same coordinates, so the
  model keeps the pairs of coordinates. \<open>tileType\<close> is the body of the inner loop
  (lines 88-111), which draws one or two random values for a tile off the path and outside
  the clear zone.
\<close>

definition pathSet :: "Point list \<Rightarrow> (int \<times> int) set" where
  "pathSet path = set (map (\<lambda>p. (px p, py p)) path)"

definition tileType :: "random \<Rightarrow> nat \<Rightarrow> Point list \<Rightarrow> nat \<Rightarrow> nat \<Rightarrow> BuildingType \<times> nat" where
  "tileType rnd k path x y =
     (if (int x, int y) \<in> pathSet path then (Road, k)
      else if x \<ge> 12 \<and> y \<le> 2 then (None', k)
      else
        (let rand = rnd k in
         if rand > 2 / 10 then
           (let buildingRoll = rnd (Suc k) in
            if buildingRoll > 55 / 100 then (Residential, Suc (Suc k))
            else if buildingRoll > 3 / 10 then (Commercial, Suc (Suc k))
            else (Park, Suc (Suc k)))
         else (None', Suc k)))"

fun buildRow ::
  "random \<Rightarrow> Point list \<Rightarrow> nat \<Rightarrow> nat list \<Rightarrow> nat \<times> TileData list \<Rightarrow> nat \<times> TileData list" where
  "buildRow rnd path y [] st = st"
| "buildRow rnd path y (x # xs) (k, row) =
     (case tileType rnd k path x y of
        (btype, k') \<Rightarrow>
          buildRow rnd path y xs (k', row @ [\<lparr>tx = x, ty = y, buildingType = btype\<rparr>]))"

fun buildGrid :: "random \<Rightarrow> Point list \<Rightarrow> nat list \<Rightarrow> nat \<times> Grid \<Rightarrow> nat \<times> Grid" where
  "buildGrid rnd path [] st = st"
| "buildGrid rnd path (y # ys) (k, rows) =
     (case buildRow rnd path y [0..<GRID_SIZE] (k, []) of
        (k', row) \<Rightarrow> buildGrid rnd path ys (k', rows @ [row]))"

definition createInitialState :: "random \<Rightarrow> Grid \<times> Point list" where
  "createInitialState rnd =
     (let start = \<lparr>px = 0, py = 14\<rparr>;
          endp = \<lparr>px = 14, py = 0\<rparr>;
          (k, path) = generateWindingPath rnd 0 start endp;
          (k', rows) = buildGrid rnd path [0..<GRID_SIZE] (k, [])
      in (rows, path))"

text \<open>
  The state of \<^verbatim>\<open>App\<close> (lines 121-134) with the state of the \<^verbatim>\<open>Cyclist\<close> that
  \<^verbatim>\<open>IsoMap\<close> has mounted and the key it was mounted with. \<^verbatim>\<open>stats\<close> and the day timer
  touch no other state and are left out.

  \<open>grid\<close>, \<open>selectedTool\<close> and \<open>cycleKey\<close> are written by the handlers of clicks only,
  and React renders at the end of a click, so the next handler reads what the last one
  wrote. \<open>activeCheckpointIndex\<close> is also written by \<^verbatim>\<open>handleReachCheckpoint\<close>, which the
  frame callback of the cyclist invokes; such a write takes effect at a later render. The
  field \<open>activeCheckpointIndex\<close> is the value last written, and \<open>renderedPaused\<close> is the
  value of the prop \<^verbatim>\<open>isPaused={activeCheckpointIndex !== null}\<close> (IsoMap.tsx, line 636) at
  the last render of the cyclist, which is what its frame callback reads.
\<close>

record App =
  grid :: Grid
  initialPath :: "Point list"
  selectedTool :: BuildingType
  activeCheckpointIndex :: "int option"
  cycleKey :: nat
  cyclistKey :: nat
  cyclist :: Cyclist
  renderedPaused :: bool

definition initialApp :: "random \<Rightarrow> App" where
  "initialApp rnd =
     (case createInitialState rnd of
        (rows, path) \<Rightarrow>
          \<lparr>grid = rows, initialPath = path, selectedTool = Commercial,
           activeCheckpointIndex = None, cycleKey = 0, cyclistKey = 0,
           cyclist = mountCyclist, renderedPaused = False\<rparr>)"

text \<open>
  \<^verbatim>\<open>handleTileClick\<close> (lines 147-165), for the coordinates of a tile of the grid. The
  source copies the outer array and assigns the new tile into the row; the model returns
  the grid with that one tile replaced.
\<close>

definition setTile :: "Grid \<Rightarrow> nat \<Rightarrow> nat \<Rightarrow> TileData \<Rightarrow> Grid" where
  "setTile g x y t = g[y := (g ! y)[x := t]]"

definition handleTileClick :: "nat \<Rightarrow> nat \<Rightarrow> App \<Rightarrow> App" where
  "handleTileClick x y s =
     (let currentTile = grid s ! y ! x;
          isPath = list_ex (\<lambda>p. px p = int x \<and> py p = int y) (initialPath s)
      in if selectedTool s = None' then
           (if \<not> isPath
            then s\<lparr>grid := setTile (grid s) x y (currentTile\<lparr>buildingType := None'\<rparr>)\<rparr>
            else s)
         else if buildingType currentTile = None'
           then s\<lparr>grid := setTile (grid s) x y (currentTile\<lparr>buildingType := selectedTool s\<rparr>)\<rparr>
           else s)"

text \<open>The other handlers (lines 167-183). \<^verbatim>\<open>handleCycleFinish\<close> only logs.\<close>

definition handleReachCheckpoint :: "int \<Rightarrow> App \<Rightarrow> App" where
  "handleReachCheckpoint index s = s\<lparr>activeCheckpointIndex := Some index\<rparr>"

definition handleContinueCycle :: "App \<Rightarrow> App" where
  "handleContinueCycle s = s\<lparr>activeCheckpointIndex := None\<rparr>"

definition handleCycleFinish :: "App \<Rightarrow> App" where
  "handleCycleFinish s = s"

definition handleRestart :: "App \<Rightarrow> App" where
  "handleRestart s = s\<lparr>activeCheckpointIndex := None, cycleKey := cycleKey s + 1\<rparr>"

text \<open>
  Rendering \<^verbatim>\<open><Cyclist key={cycleKey} isPaused={activeCheckpointIndex !== null} ... />\<close>
  (IsoMap.tsx, lines 633-639). \<open>renderPaused\<close> passes the prop \<^verbatim>\<open>isPaused\<close>.
  \<open>renderCyclist\<close> is the reconciliation by key: React keeps the mounted component while
  the key is the same, and replaces it with a newly mounted one, rendered with the current
  props, when the key has changed. \<open>commit\<close> is a render that takes in every write made
  so far, those of the frame callback included: the cyclist is rendered with the progress
  last written and with the current prop.
\<close>

definition renderPaused :: "App \<Rightarrow> App" where
  "renderPaused s = s\<lparr>renderedPaused := (activeCheckpointIndex s \<noteq> None)\<rparr>"

definition renderCyclist :: "App \<Rightarrow> App" where
  "renderCyclist s =
     (if cyclistKey s = cycleKey s then s
      else renderPaused (s\<lparr>cyclistKey := cycleKey s, cyclist := mountCyclist\<rparr>))"

definition commit :: "App \<Rightarrow> App" where
  "commit s = renderPaused (s\<lparr>cyclist := renderProgress (cyclist s)\<rparr>)"

text \<open>
  The events of the application and what each does to the state. A tile click reaches
  \<^verbatim>\<open>handleTileClick\<close> from the mesh of a tile of the grid only (IsoMap.tsx, lines 590-609).
  A frame runs the callback of the cyclist, with the progress and the prop \<^verbatim>\<open>isPaused\<close>
  of the last render of the cyclist, and then the callbacks it has invoked. \<open>Rerender\<close>
  is the render that React schedules after the writes of a frame; it may come after any
  number of further frames and clicks. The render at the end of a click takes in the writes of
  the click: \<^verbatim>\<open>handleContinueCycle\<close> and \<^verbatim>\<open>handleRestart\<close> have written
  \<^verbatim>\<open>activeCheckpointIndex\<close>, so the cyclist is rendered with the new prop, and the key is
  reconciled. Whether that render also takes in the earlier writes of a frame depends on
  the version of React; a run in which it does has a \<open>Rerender\<close> after the click.
\<close>

datatype event =
  TileClick nat nat
  | SelectTool BuildingType
  | ContinueCycle
  | Restart
  | Frame real
  | Rerender

fun invoke :: "App \<Rightarrow> callback \<Rightarrow> App" where
  "invoke s (ReachCheckpoint index) = handleReachCheckpoint index s"
| "invoke s Finish = handleCycleFinish s"

fun handle :: "rounding \<Rightarrow> App \<Rightarrow> event \<Rightarrow> App" where
  "handle fl s (TileClick x y) =
     (if y < length (grid s) \<and> x < length (grid s ! y) then handleTileClick x y s else s)"
| "handle fl s (SelectTool t) = s\<lparr>selectedTool := t\<rparr>"
| "handle fl s ContinueCycle = renderPaused (handleContinueCycle s)"
| "handle fl s Restart = renderPaused (handleRestart s)"
| "handle fl s (Frame d) =
     (case useFrame (initialPath s) fl
             \<lparr>groupAttached = True, isPaused = renderedPaused s, delta = d\<rparr>
             (cyclist s) of
        (c, cbs) \<Rightarrow> foldl invoke (s\<lparr>cyclist := c\<rparr>) cbs)"
| "handle fl s Rerender = commit s"

definition step :: "rounding \<Rightarrow> App \<Rightarrow> event \<Rightarrow> App" where
  "step fl s e = renderCyclist (handle fl s e)"

definition exec :: "rounding \<Rightarrow> App \<Rightarrow> event list \<Rightarrow> App" where
  "exec fl s es = foldl (step fl) s es"

section \<open>Invariants used in the proofs\<close>

text \<open>
  The invariant of the reachable states: the grid has its shape, the tiles on the path are
  roads, and the mounted cyclist has the current key.
\<close>

definition gridInv :: "App \<Rightarrow> bool" where
  "gridInv s \<longleftrightarrow>
     length (grid s) = GRID_SIZE \<and>
     (\<forall>y<GRID_SIZE. length (grid s ! y) = GRID_SIZE) \<and>
     (\<forall>x<GRID_SIZE. \<forall>y<GRID_SIZE. (int x, int y) \<in> pathSet (initialPath s) \<longrightarrow>
        buildingType (grid s ! y ! x) = Road) \<and>
     cyclistKey s = cycleKey s"

text \<open>A point inside the square of the coordinates from \<open>lo\<close> to \<open>hi\<close>.\<close>

definition inBox :: "int \<Rightarrow> int \<Rightarrow> Point \<Rightarrow> bool" where
  "inBox lo hi p \<longleftrightarrow> lo \<le> px p \<and> px p \<le> hi \<and> lo \<le> py p \<and> py p \<le> hi"

section \<open>Properties of the path generator\<close>

lemma loopBody_adjacent:
  assumes "px cur \<noteq> px p2 \<or> py cur \<noteq> py p2"
    and "loopBody rnd p2 (k, cur) = (k', cur')"
  shows "adjacent cur cur'"
  using moveStep_cases [OF assms] by (auto simp: adjacent_def)

lemma remaining_0_iff: "remaining p2 cur = 0 \<longleftrightarrow> \<not> (px cur \<noteq> px p2 \<or> py cur \<noteq> py p2)"
  by (auto simp: remaining_def)

lemma remaining_0_eq: "remaining p2 cur = 0 \<longleftrightarrow> cur = p2"
  by (auto simp: remaining_def)

lemma connectPoints_loop_spec:
  "remaining p2 cur = n \<Longrightarrow>
   \<exists>k' seg. connectPoints_loop rnd p2 k cur segment = (k', segment @ seg) \<and>
     length seg = n \<and> successively adjacent (cur # seg) \<and> last (cur # seg) = p2"
proof (induction n arbitrary: k cur segment)
  case 0
  then have "\<not> (px cur \<noteq> px p2 \<or> py cur \<noteq> py p2)" and "cur = p2"
    by (simp_all add: remaining_0_iff remaining_0_eq)
  then show ?case
    by (subst connectPoints_loop.simps) simp
next
  case (Suc n)
  then have ne: "px cur \<noteq> px p2 \<or> py cur \<noteq> py p2"
    using remaining_0_iff [of p2 cur] by simp
  obtain k1 cur1 where b: "loopBody rnd p2 (k, cur) = (k1, cur1)"
    by (cases "loopBody rnd p2 (k, cur)")
  have "remaining p2 cur1 = n"
    using loopBody_remaining [OF ne b] Suc.prems by simp
  from Suc.IH [OF this, of k1 "segment @ [cur1]"]
  obtain k' seg where r: "connectPoints_loop rnd p2 k1 cur1 (segment @ [cur1]) =
      (k', (segment @ [cur1]) @ seg)"
    and l: "length seg = n" and s: "successively adjacent (cur1 # seg)"
    and e: "last (cur1 # seg) = p2"
    by blast
  have "connectPoints_loop rnd p2 k cur segment = (k', segment @ (cur1 # seg))"
    using ne b r by (subst connectPoints_loop.simps) simp
  moreover have "successively adjacent (cur # cur1 # seg)"
    using s loopBody_adjacent [OF ne b] by simp
  moreover have "last (cur # cur1 # seg) = p2"
    using e by simp
  ultimately show ?case
    using l by (intro exI [of _ k'] exI [of _ "cur1 # seg"]) simp
qed

lemma connectPoints_while_eq:
  "remaining p2 cur = n \<Longrightarrow>
   connectPoints_while rnd p2 (k, cur, segment) = Some (connectPoints_loop rnd p2 k cur segment)"
proof (induction n arbitrary: k cur segment)
  case 0
  then have "\<not> (px cur \<noteq> px p2 \<or> py cur \<noteq> py p2)"
    by (simp add: remaining_0_iff)
  then show ?case
    by (subst connectPoints_while.simps, subst connectPoints_loop.simps) simp
next
  case (Suc n)
  then have ne: "px cur \<noteq> px p2 \<or> py cur \<noteq> py p2"
    using remaining_0_iff [of p2 cur] by simp
  obtain k1 cur1 where b: "loopBody rnd p2 (k, cur) = (k1, cur1)"
    by (cases "loopBody rnd p2 (k, cur)")
  have "remaining p2 cur1 = n"
    using loopBody_remaining [OF ne b] Suc.prems by simp
  from Suc.IH [OF this, of k1 "segment @ [cur1]"] show ?case
    using ne b by (subst connectPoints_while.simps, subst connectPoints_loop.simps) simp
qed

lemma connectPoints_spec:
  "\<exists>k' seg. connectPoints rnd k p1 p2 = (k', seg) \<and> length seg = remaining p2 p1 \<and>
     successively adjacent (p1 # seg) \<and> last (p1 # seg) = p2"
  using connectPoints_loop_spec [where cur = p1 and segment = "[]" and rnd = rnd and k = k, OF refl]
  by (simp add: connectPoints_def)

lemma connectSegments_spec:
  "ws \<noteq> [] \<Longrightarrow> fullPath \<noteq> [] \<Longrightarrow> last fullPath = hd ws \<Longrightarrow> successively adjacent fullPath \<Longrightarrow>
   \<exists>k' rest. connectSegments rnd k ws fullPath = (k', fullPath @ rest) \<and>
      successively adjacent (fullPath @ rest) \<and> last (fullPath @ rest) = last ws \<and>
      length rest = totalSteps ws"
proof (induction rnd k ws fullPath rule: connectSegments.induct)
  case (1 rnd k p1 p2 ws fullPath)
  obtain k1 seg where c: "connectPoints rnd k p1 p2 = (k1, seg)"
    and l: "length seg = remaining p2 p1"
    and s: "successively adjacent (p1 # seg)" and e: "last (p1 # seg) = p2"
    using connectPoints_spec [of rnd k p1 p2] by blast
  have f: "fullPath = butlast fullPath @ [p1]"
    using "1.prems" by (metis append_butlast_last_id list.sel(1))
  have s2: "successively adjacent (fullPath @ seg)"
    using s "1.prems" by (cases seg) (auto simp: successively_append_iff)
  have e2: "last (fullPath @ seg) = hd (p2 # ws)"
    using e "1.prems" by (cases seg) auto
  have "fullPath @ seg \<noteq> []" using "1.prems" by simp
  from "1.IH" [OF c [symmetric] _ this e2 s2]
  obtain k' rest where r: "connectSegments rnd k1 (p2 # ws) (fullPath @ seg) =
       (k', (fullPath @ seg) @ rest)"
     and "successively adjacent ((fullPath @ seg) @ rest)"
     and "last ((fullPath @ seg) @ rest) = last (p2 # ws)"
     and "length rest = totalSteps (p2 # ws)"
    by auto
  then show ?case
    using c l by (intro exI [of _ k'] exI [of _ "seg @ rest"]) simp
qed simp_all

lemma successively_nth:
  "successively P xs \<Longrightarrow> Suc i < length xs \<Longrightarrow> P (xs ! i) (xs ! Suc i)"
proof (induction xs arbitrary: i)
  case Nil
  then show ?case by simp
next
  case (Cons a xs)
  show ?case
  proof (cases i)
    case 0
    then show ?thesis using Cons.prems by (cases xs) simp_all
  next
    case (Suc m)
    then show ?thesis using Cons by (cases xs) simp_all
  qed
qed

lemma generateWindingPath_spec:
  "\<exists>k' rest. generateWindingPath rnd k start endp = (k', start # rest) \<and>
     successively adjacent (start # rest) \<and> last (start # rest) = endp \<and>
     length rest = totalSteps (waypoints start endp)"
proof -
  have w: "waypoints start endp \<noteq> []" "hd (waypoints start endp) = start"
    "last (waypoints start endp) = endp"
    by (simp_all add: waypoints_def)
  from connectSegments_spec [of "waypoints start endp" "[start]" rnd k]
  show ?thesis
    using w by (simp add: generateWindingPath_def)
qed

lemma totalSteps_waypoints:
  "totalSteps (waypoints start endp) =
     remaining \<lparr>px = 2, py = 12\<rparr> start + 38 + remaining endp \<lparr>px = 13, py = 3\<rparr>"
  by (simp add: waypoints_def remaining_def)

lemma length_generateWindingPath:
  "length (snd (generateWindingPath rnd k start endp)) = Suc (totalSteps (waypoints start endp))"
  using generateWindingPath_spec [of rnd k start endp] by auto

text \<open>
  Claim C3. For every outcome of the random choices, and for every start and end (in
  particular the start (0,14) and the end (14,0) that \<^verbatim>\<open>createInitialState\<close> passes), the
  path that \<^verbatim>\<open>generateWindingPath\<close> returns begins with the start, ends with the end, and
  any two consecutive cells differ by exactly one unit on exactly one axis: there is no
  teleport, no diagonal step and no repeated cell.
\<close>

theorem generateWindingPath_connected:
  "(let path = snd (generateWindingPath rnd k start endp) in
      path \<noteq> [] \<and> hd path = start \<and> last path = endp \<and>
      (Suc i < length path \<longrightarrow> adjacent (path ! i) (path ! Suc i)))"
proof -
  obtain k' rest where g: "generateWindingPath rnd k start endp = (k', start # rest)"
    and s: "successively adjacent (start # rest)" and l: "last (start # rest) = endp"
    using generateWindingPath_spec [of rnd k start endp] by blast
  show ?thesis
    using g l successively_nth [OF s, of i] by (simp add: Let_def)
qed

theorem generateWindingPath_connected_witness:
  "(let path = snd (generateWindingPath (\<lambda>n. 0) 0 \<lparr>px = 0, py = 14\<rparr> \<lparr>px = 14, py = 0\<rparr>) in
      Suc 0 < length path \<and> path ! 0 = \<lparr>px = 0, py = 14\<rparr> \<and> path ! Suc 0 = \<lparr>px = 0, py = 13\<rparr> \<and>
      adjacent (path ! 0) (path ! Suc 0) \<and>
      hd path = \<lparr>px = 0, py = 14\<rparr> \<and> last path = \<lparr>px = 14, py = 0\<rparr>)"
proof -
  have "Suc 0 < length (snd (generateWindingPath (\<lambda>n. 0) 0 \<lparr>px = 0, py = 14\<rparr> \<lparr>px = 14, py = 0\<rparr>))"
    by code_simp
  moreover have "snd (generateWindingPath (\<lambda>n. 0) 0 \<lparr>px = 0, py = 14\<rparr> \<lparr>px = 14, py = 0\<rparr>) ! 0
      = \<lparr>px = 0, py = 14\<rparr>"
    by code_simp
  moreover have "snd (generateWindingPath (\<lambda>n. 0) 0 \<lparr>px = 0, py = 14\<rparr> \<lparr>px = 14, py = 0\<rparr>) ! Suc 0
      = \<lparr>px = 0, py = 13\<rparr>"
    by code_simp
  ultimately show ?thesis
    using generateWindingPath_connected
      [of "\<lambda>n. 0" 0 "\<lparr>px = 0, py = 14\<rparr>" "\<lparr>px = 14, py = 0\<rparr>" 0]
    by (simp add: Let_def)
qed

text \<open>
  Claim C8. Each iteration of the loop of \<^verbatim>\<open>connectPoints\<close> strictly decreases the
  remaining distance to the target, along one of the two axes. So the loop returns for every
  pair of integer points: the loop with no termination argument built in returns the value
  of \<open>connectPoints\<close>, after as many iterations as the distance between the two points,
  and the path of \<^verbatim>\<open>generateWindingPath\<close> has one cell more than the sum of the distances
  between its consecutive waypoints.
\<close>

theorem connectPoints_terminates:
  "(px cur \<noteq> px p2 \<or> py cur \<noteq> py p2 \<longrightarrow>
      remaining p2 (snd (loopBody rnd p2 (k, cur))) < remaining p2 cur \<and>
      (\<bar>px p2 - px (snd (loopBody rnd p2 (k, cur)))\<bar> < \<bar>px p2 - px cur\<bar> \<or>
       \<bar>py p2 - py (snd (loopBody rnd p2 (k, cur)))\<bar> < \<bar>py p2 - py cur\<bar>)) \<and>
   connectPoints_while rnd p2 (k, p1, []) = Some (connectPoints rnd k p1 p2) \<and>
   length (snd (connectPoints rnd k p1 p2)) = remaining p2 p1 \<and>
   length (snd (generateWindingPath rnd k start endp)) = Suc (totalSteps (waypoints start endp))"
proof -
  have "remaining p2 (snd (loopBody rnd p2 (k, cur))) < remaining p2 cur \<and>
      (\<bar>px p2 - px (snd (loopBody rnd p2 (k, cur)))\<bar> < \<bar>px p2 - px cur\<bar> \<or>
       \<bar>py p2 - py (snd (loopBody rnd p2 (k, cur)))\<bar> < \<bar>py p2 - py cur\<bar>)"
    if ne: "px cur \<noteq> px p2 \<or> py cur \<noteq> py p2"
  proof -
    obtain k1 cur1 where b: "loopBody rnd p2 (k, cur) = (k1, cur1)"
      by (cases "loopBody rnd p2 (k, cur)")
    show ?thesis
      using moveStep_cases [OF ne b] loopBody_remaining [OF ne b] b by auto
  qed
  moreover have "connectPoints_while rnd p2 (k, p1, []) = Some (connectPoints rnd k p1 p2)"
    using connectPoints_while_eq [OF refl, of rnd p2 k p1 "[]"]
    by (simp add: connectPoints_def)
  moreover have "length (snd (connectPoints rnd k p1 p2)) = remaining p2 p1"
    using connectPoints_spec [of rnd k p1 p2] by auto
  ultimately show ?thesis
    using length_generateWindingPath [of rnd k start endp] by blast
qed

theorem connectPoints_terminates_witness:
  "remaining \<lparr>px = 2, py = 12\<rparr> (snd (loopBody (\<lambda>n. 0) \<lparr>px = 2, py = 12\<rparr> (0, \<lparr>px = 0, py = 14\<rparr>)))
     < remaining \<lparr>px = 2, py = 12\<rparr> \<lparr>px = 0, py = 14\<rparr> \<and>
   snd (loopBody (\<lambda>n. 0) \<lparr>px = 2, py = 12\<rparr> (0, \<lparr>px = 0, py = 14\<rparr>)) = \<lparr>px = 0, py = 13\<rparr> \<and>
   connectPoints_while (\<lambda>n. 0) \<lparr>px = 2, py = 12\<rparr> (0, \<lparr>px = 0, py = 14\<rparr>, []) =
     Some (2, [\<lparr>px = 0, py = 13\<rparr>, \<lparr>px = 1, py = 13\<rparr>, \<lparr>px = 1, py = 12\<rparr>, \<lparr>px = 2, py = 12\<rparr>])"
proof -
  have "connectPoints (\<lambda>n. 0) 0 \<lparr>px = 0, py = 14\<rparr> \<lparr>px = 2, py = 12\<rparr> =
      (2, [\<lparr>px = 0, py = 13\<rparr>, \<lparr>px = 1, py = 13\<rparr>, \<lparr>px = 1, py = 12\<rparr>, \<lparr>px = 2, py = 12\<rparr>])"
    by code_simp
  moreover have "snd (loopBody (\<lambda>n. 0) \<lparr>px = 2, py = 12\<rparr> (0, \<lparr>px = 0, py = 14\<rparr>)) = \<lparr>px = 0, py = 13\<rparr>"
    by code_simp
  ultimately show ?thesis
    using connectPoints_terminates
      [of "\<lparr>px = 0, py = 14\<rparr>" "\<lparr>px = 2, py = 12\<rparr>" "\<lambda>n. 0" 0 "\<lparr>px = 0, py = 14\<rparr>"]
    by simp
qed

text \<open>
  Claim C9. When the two deltas to the target are non-zero and equal in magnitude, the
  iteration draws a random value and steps along \<open>x\<close> when it is above one half, along
  \<open>y\<close> otherwise. So \<^verbatim>\<open>generateWindingPath\<close> is not deterministic: two sequences of
  random values in [0, 1) give different paths from (0,14) to (14,0).
\<close>

theorem generateWindingPath_nondeterministic:
  "(\<bar>px p2 - px cur\<bar> = \<bar>py p2 - py cur\<bar> \<and> px cur \<noteq> px p2 \<longrightarrow>
      loopBody rnd p2 (k, cur) =
        (Suc k, if rnd k > 1 / 2 then cur\<lparr>px := px cur + sgn (px p2 - px cur)\<rparr>
                else cur\<lparr>py := py cur + sgn (py p2 - py cur)\<rparr>)) \<and>
   (\<exists>rnd1 rnd2. (\<forall>n. 0 \<le> rnd1 n \<and> rnd1 n < 1) \<and> (\<forall>n. 0 \<le> rnd2 n \<and> rnd2 n < 1) \<and>
      snd (generateWindingPath rnd1 0 \<lparr>px = 0, py = 14\<rparr> \<lparr>px = 14, py = 0\<rparr>) \<noteq>
      snd (generateWindingPath rnd2 0 \<lparr>px = 0, py = 14\<rparr> \<lparr>px = 14, py = 0\<rparr>))"
proof -
  have a: "snd (generateWindingPath (\<lambda>n. 0) 0 \<lparr>px = 0, py = 14\<rparr> \<lparr>px = 14, py = 0\<rparr>) ! 1
      = \<lparr>px = 0, py = 13\<rparr>"
    by code_simp
  have b: "snd (generateWindingPath (\<lambda>n. 3 / 4) 0 \<lparr>px = 0, py = 14\<rparr> \<lparr>px = 14, py = 0\<rparr>) ! 1
      = \<lparr>px = 1, py = 14\<rparr>"
    by code_simp
  have "snd (generateWindingPath (\<lambda>n. 0) 0 \<lparr>px = 0, py = 14\<rparr> \<lparr>px = 14, py = 0\<rparr>) \<noteq>
      snd (generateWindingPath (\<lambda>n. 3 / 4) 0 \<lparr>px = 0, py = 14\<rparr> \<lparr>px = 14, py = 0\<rparr>)"
    using a b by auto
  then have "\<exists>rnd1 rnd2. (\<forall>n. 0 \<le> rnd1 n \<and> rnd1 n < 1) \<and> (\<forall>n. 0 \<le> rnd2 n \<and> rnd2 n < 1) \<and>
      snd (generateWindingPath rnd1 0 \<lparr>px = 0, py = 14\<rparr> \<lparr>px = 14, py = 0\<rparr>) \<noteq>
      snd (generateWindingPath rnd2 0 \<lparr>px = 0, py = 14\<rparr> \<lparr>px = 14, py = 0\<rparr>)"
    by (intro exI [of _ "\<lambda>n. 0"] exI [of _ "\<lambda>n. 3 / 4"]) simp
  moreover have "\<bar>px p2 - px cur\<bar> = \<bar>py p2 - py cur\<bar> \<and> px cur \<noteq> px p2 \<longrightarrow>
      loopBody rnd p2 (k, cur) =
        (Suc k, if rnd k > 1 / 2 then cur\<lparr>px := px cur + sgn (px p2 - px cur)\<rparr>
                else cur\<lparr>py := py cur + sgn (py p2 - py cur)\<rparr>)"
    by (auto simp: loopBody_def chooseMoveX_def moveStep_def Let_def)
  ultimately show ?thesis by blast
qed

theorem generateWindingPath_nondeterministic_witness:
  "loopBody (\<lambda>n. 0) \<lparr>px = 2, py = 12\<rparr> (0, \<lparr>px = 0, py = 14\<rparr>) = (Suc 0, \<lparr>px = 0, py = 13\<rparr>) \<and>
   loopBody (\<lambda>n. 3 / 4) \<lparr>px = 2, py = 12\<rparr> (0, \<lparr>px = 0, py = 14\<rparr>) = (Suc 0, \<lparr>px = 1, py = 14\<rparr>)"
  using generateWindingPath_nondeterministic
      [of "\<lparr>px = 2, py = 12\<rparr>" "\<lparr>px = 0, py = 14\<rparr>" "\<lambda>n. 0" 0]
    generateWindingPath_nondeterministic
      [of "\<lparr>px = 2, py = 12\<rparr>" "\<lparr>px = 0, py = 14\<rparr>" "\<lambda>n. 3 / 4" 0]
  by simp

section \<open>Checkpoint indices of the generated paths\<close>

lemma floor_sixths: "\<lfloor>real n * (real i / real (CHECKPOINT_COUNT + 1))\<rfloor> = int (n * i div 6)"
proof -
  have "real n * (real i / real (CHECKPOINT_COUNT + 1)) = real (n * i) / real 6"
    by (simp add: CHECKPOINT_COUNT_def)
  then show ?thesis
    by (simp only: floor_divide_of_nat_eq)
qed

lemma getCheckpointIndices_eq:
  "getCheckpointIndices n =
     [int (n div 6), int (n * 2 div 6), int (n * 3 div 6), int (n * 4 div 6), int (n * 5 div 6)]"
proof -
  have "[1..<CHECKPOINT_COUNT + 1] = [1, 2, 3, 4, 5]"
    by (simp add: CHECKPOINT_COUNT_def upt_rec)
  then have "getCheckpointIndices n = map (\<lambda>i. int (n * i div 6)) [1, 2, 3, 4, 5]"
    unfolding getCheckpointIndices_def by (simp only: floor_sixths)
  then show ?thesis by simp
qed

lemma getCheckpointIndices_interior:
  assumes "6 \<le> n"
  shows "length (getCheckpointIndices n) = 5"
    and "sorted_wrt (<) (getCheckpointIndices n)"
    and "\<forall>c\<in>set (getCheckpointIndices n). 0 < c \<and> c < int n"
  using assms unfolding getCheckpointIndices_eq by auto

text \<open>
  Claim C4. For every path that \<^verbatim>\<open>generateWindingPath\<close> produces (any random outcomes, any
  start and end), \<^verbatim>\<open>getCheckpointIndices\<close> of its length returns 5 indices that are
  strictly increasing, each strictly greater than 0 and strictly less than the length of the
  path.
\<close>

theorem checkpoints_increasing_interior:
  "(let path = snd (generateWindingPath rnd k start endp);
        indices = getCheckpointIndices (length path)
    in length indices = 5 \<and>
       (i < j \<and> j < 5 \<longrightarrow> indices ! i < indices ! j) \<and>
       (i < 5 \<longrightarrow> 0 < indices ! i \<and> indices ! i < int (length path)))"
proof -
  define n where "n = length (snd (generateWindingPath rnd k start endp))"
  have "6 \<le> n"
    unfolding n_def length_generateWindingPath totalSteps_waypoints by simp
  note g = getCheckpointIndices_interior [OF this]
  have "i < j \<and> j < 5 \<longrightarrow> getCheckpointIndices n ! i < getCheckpointIndices n ! j"
    using g(1,2) by (simp add: sorted_wrt_iff_nth_less)
  moreover have "i < 5 \<longrightarrow> 0 < getCheckpointIndices n ! i \<and> getCheckpointIndices n ! i < int n"
    using g(1,3) by (metis nth_mem)
  ultimately show ?thesis
    using g(1) unfolding n_def Let_def by blast
qed

theorem checkpoints_increasing_interior_witness:
  "(let path = snd (generateWindingPath (\<lambda>n. 0) 0 \<lparr>px = 0, py = 14\<rparr> \<lparr>px = 14, py = 0\<rparr>);
        indices = getCheckpointIndices (length path)
    in indices = [7, 15, 23, 31, 39] \<and> length path = 47 \<and>
       indices ! 0 < indices ! 1 \<and> 0 < indices ! 0 \<and> indices ! 4 < int (length path))"
proof -
  define path where "path = snd (generateWindingPath (\<lambda>n. 0) 0 \<lparr>px = 0, py = 14\<rparr> \<lparr>px = 14, py = 0\<rparr>)"
  have l: "length path = 47" unfolding path_def by code_simp
  have c: "getCheckpointIndices 47 = [7, 15, 23, 31, 39]"
    by (simp add: getCheckpointIndices_eq)
  show ?thesis
    using checkpoints_increasing_interior
        [of "\<lambda>n. 0" 0 "\<lparr>px = 0, py = 14\<rparr>" "\<lparr>px = 14, py = 0\<rparr>" 0 1]
      checkpoints_increasing_interior
        [of "\<lambda>n. 0" 0 "\<lparr>px = 0, py = 14\<rparr>" "\<lparr>px = 14, py = 0\<rparr>" 4 4]
    unfolding path_def [symmetric] Let_def l c
    by simp
qed

section \<open>Properties of the cyclist\<close>

lemma indexOf_ge: "- 1 \<le> indexOf xs v"
  by (induction xs) (auto simp: Let_def)

lemma indexOf_found: "indexOf xs v \<noteq> - 1 \<longleftrightarrow> v \<in> set xs"
proof (induction xs)
  case (Cons a xs)
  then show ?case
    using indexOf_ge [of xs v] by (auto simp: Let_def)
qed simp

lemma getCheckpointIndices_nonneg: "c \<in> set (getCheckpointIndices n) \<Longrightarrow> 0 \<le> c"
  by (auto simp: getCheckpointIndices_def)

lemma useFrame_idle:
  "length path < 2 \<or> \<not> groupAttached f \<or> isPaused f \<or> hasFinished c \<Longrightarrow>
   useFrame path fl f c = (c, [])"
  by (auto simp: useFrame_def)

lemma useFrame_running:
  assumes "2 \<le> length path" "groupAttached f" "\<not> isPaused f" "\<not> hasFinished c"
    and "new = fl (progress c + fl (speed * delta f))"
  shows "useFrame path fl f c =
    (\<lparr>progress = progress c,
      pendingProgress = Some (if new \<ge> real (length path) - 1 then real (length path) - 1 else new),
      lastTriggeredCheckpoint =
        (if \<lfloor>new\<rfloor> \<in> set (getCheckpointIndices (length path)) then \<lfloor>new\<rfloor> else - 1),
      hasFinished = (new \<ge> real (length path) - 1)\<rparr>,
     (if new \<ge> real (length path) - 1 then [Finish] else []) @
     (if \<lfloor>new\<rfloor> \<in> set (getCheckpointIndices (length path)) \<and>
         lastTriggeredCheckpoint c \<noteq> \<lfloor>new\<rfloor>
      then [ReachCheckpoint (indexOf (getCheckpointIndices (length path)) \<lfloor>new\<rfloor>)]
      else []))"
  using assms
  by (auto simp: useFrame_def Let_def indexOf_found)

lemma stateAt_0: "stateAt path fl ts 0 = mountCyclist"
  by (simp add: stateAt_def runTicks_def)

lemma stateAt_Suc:
  "j < length ts \<Longrightarrow>
   stateAt path fl ts (Suc j) = tickStep path fl (stateAt path fl ts j) (ts ! j)"
  by (simp add: stateAt_def runTicks_def take_Suc_conv_app_nth)

lemma stateAt_beyond:
  "length ts \<le> j \<Longrightarrow> stateAt path fl ts j = stateAt path fl ts (length ts)"
  by (simp add: stateAt_def)

lemma currentProgress_render [simp]:
  "currentProgress (renderProgress c) = currentProgress c"
  "progress (renderProgress c) = currentProgress c"
  "hasFinished (renderProgress c) = hasFinished c"
  "lastTriggeredCheckpoint (renderProgress c) = lastTriggeredCheckpoint c"
  by (simp_all add: currentProgress_def renderProgress_def split: option.splits)

text \<open>A tick that is not a Running call: a render, or a call that returns early.\<close>

lemma tick_not_running:
  assumes "j < length ts" "\<not> running path fl ts j"
  shows "emitted path fl ts j = []"
    and "hasFinished (stateAt path fl ts (Suc j)) = hasFinished (stateAt path fl ts j)"
    and "lastTriggeredCheckpoint (stateAt path fl ts (Suc j)) =
           lastTriggeredCheckpoint (stateAt path fl ts j)"
    and "currentProgress (stateAt path fl ts (Suc j)) = currentProgress (stateAt path fl ts j)"
    and "progress (stateAt path fl ts (Suc j)) = progress (stateAt path fl ts j) \<or>
         progress (stateAt path fl ts (Suc j)) = currentProgress (stateAt path fl ts j)"
proof -
  have "emitted path fl ts j = [] \<and>
      hasFinished (stateAt path fl ts (Suc j)) = hasFinished (stateAt path fl ts j) \<and>
      lastTriggeredCheckpoint (stateAt path fl ts (Suc j)) =
           lastTriggeredCheckpoint (stateAt path fl ts j) \<and>
      currentProgress (stateAt path fl ts (Suc j)) = currentProgress (stateAt path fl ts j) \<and>
      (progress (stateAt path fl ts (Suc j)) = progress (stateAt path fl ts j) \<or>
         progress (stateAt path fl ts (Suc j)) = currentProgress (stateAt path fl ts j))"
  proof (cases "ts ! j")
    case Render
    then show ?thesis
      by (simp add: stateAt_Suc [OF assms(1)] tickStep_def emitted_def)
  next
    case (Callback f)
    then have "useFrame path fl f (stateAt path fl ts j) = (stateAt path fl ts j, [])"
      using assms(2) by (intro useFrame_idle) (auto simp: running_def)
    then show ?thesis
      using Callback by (simp add: stateAt_Suc [OF assms(1)] tickStep_def emitted_def)
  qed
  then show "emitted path fl ts j = []"
    and "hasFinished (stateAt path fl ts (Suc j)) = hasFinished (stateAt path fl ts j)"
    and "lastTriggeredCheckpoint (stateAt path fl ts (Suc j)) =
           lastTriggeredCheckpoint (stateAt path fl ts j)"
    and "currentProgress (stateAt path fl ts (Suc j)) = currentProgress (stateAt path fl ts j)"
    and "progress (stateAt path fl ts (Suc j)) = progress (stateAt path fl ts j) \<or>
         progress (stateAt path fl ts (Suc j)) = currentProgress (stateAt path fl ts j)"
    by blast+
qed

text \<open>A Running call.\<close>

lemma tick_running:
  assumes "j < length ts" "running path fl ts j"
  shows "progress (stateAt path fl ts (Suc j)) = progress (stateAt path fl ts j)"
    and "currentProgress (stateAt path fl ts (Suc j)) =
           (if newProgressAt path fl ts j \<ge> real (length path) - 1
            then real (length path) - 1 else newProgressAt path fl ts j)"
    and "hasFinished (stateAt path fl ts (Suc j)) =
           (newProgressAt path fl ts j \<ge> real (length path) - 1)"
    and "lastTriggeredCheckpoint (stateAt path fl ts (Suc j)) =
           (if indexAt path fl ts j \<in> set (getCheckpointIndices (length path))
            then indexAt path fl ts j else - 1)"
    and "emitted path fl ts j =
           (if newProgressAt path fl ts j \<ge> real (length path) - 1 then [Finish] else []) @
           (if indexAt path fl ts j \<in> set (getCheckpointIndices (length path)) \<and>
               lastTriggeredCheckpoint (stateAt path fl ts j) \<noteq> indexAt path fl ts j
            then [ReachCheckpoint
                    (indexOf (getCheckpointIndices (length path)) (indexAt path fl ts j))]
            else [])"
proof -
  obtain f where t: "ts ! j = Callback f"
    using assms(2) by (cases "ts ! j") (simp_all add: running_def)
  have r: "2 \<le> length path" "groupAttached f" "\<not> isPaused f"
    "\<not> hasFinished (stateAt path fl ts j)"
    using assms(2) t by (simp_all add: running_def)
  have n: "newProgressAt path fl ts j = fl (progress (stateAt path fl ts j) + fl (speed * delta f))"
    using t by (simp add: newProgressAt_def)
  note u = useFrame_running [where fl = fl and new = "newProgressAt path fl ts j", OF r n]
  show "progress (stateAt path fl ts (Suc j)) = progress (stateAt path fl ts j)"
    by (simp add: stateAt_Suc [OF assms(1)] tickStep_def t u)
  show "currentProgress (stateAt path fl ts (Suc j)) =
           (if newProgressAt path fl ts j \<ge> real (length path) - 1
            then real (length path) - 1 else newProgressAt path fl ts j)"
    by (simp add: stateAt_Suc [OF assms(1)] tickStep_def t u currentProgress_def)
  show "hasFinished (stateAt path fl ts (Suc j)) =
           (newProgressAt path fl ts j \<ge> real (length path) - 1)"
    by (simp add: stateAt_Suc [OF assms(1)] tickStep_def t u)
  show "lastTriggeredCheckpoint (stateAt path fl ts (Suc j)) =
           (if indexAt path fl ts j \<in> set (getCheckpointIndices (length path))
            then indexAt path fl ts j else - 1)"
    by (simp add: stateAt_Suc [OF assms(1)] tickStep_def t u indexAt_def)
  show "emitted path fl ts j =
           (if newProgressAt path fl ts j \<ge> real (length path) - 1 then [Finish] else []) @
           (if indexAt path fl ts j \<in> set (getCheckpointIndices (length path)) \<and>
               lastTriggeredCheckpoint (stateAt path fl ts j) \<noteq> indexAt path fl ts j
            then [ReachCheckpoint
                    (indexOf (getCheckpointIndices (length path)) (indexAt path fl ts j))]
            else [])"
    by (simp add: emitted_def t u indexAt_def)
qed

lemma not_running_beyond: "length ts \<le> j \<Longrightarrow> stateAt path fl ts (Suc j) = stateAt path fl ts j"
  using stateAt_beyond [of ts j path fl] stateAt_beyond [of ts "Suc j" path fl] by simp

text \<open>
  For every rounding: the cyclist has finished exactly when the value of its state is the
  last index, and the progress of a render is never beyond it.
\<close>

lemma finished_iff:
  assumes "2 \<le> length path"
  shows "(hasFinished (stateAt path fl ts j) \<longrightarrow>
            currentProgress (stateAt path fl ts j) = real (length path) - 1)
       \<and> (\<not> hasFinished (stateAt path fl ts j) \<longrightarrow>
            currentProgress (stateAt path fl ts j) < real (length path) - 1 \<and>
            progress (stateAt path fl ts j) < real (length path) - 1)
       \<and> progress (stateAt path fl ts j) \<le> real (length path) - 1"
proof (induction j)
  case 0
  then show ?case
    using assms by (simp add: stateAt_0 mountCyclist_def currentProgress_def)
next
  case (Suc j)
  show ?case
  proof (cases "j < length ts")
    case False
    then show ?thesis using Suc not_running_beyond [of ts j path fl] by simp
  next
    case True
    show ?thesis
    proof (cases "running path fl ts j")
      case False
      show ?thesis
        using Suc tick_not_running(2,4,5) [OF True False] by auto
    next
      case r: True
      then have "\<not> hasFinished (stateAt path fl ts j)"
        by (auto simp: running_def split: tick.splits)
      then show ?thesis
        using Suc tick_running(1,2,3) [OF True r] by auto
    qed
  qed
qed

text \<open>Once finished, the refs and the value of the state stay, and no tick invokes a callback.\<close>

lemma finished_stable:
  assumes "hasFinished (stateAt path fl ts i)" "i \<le> j"
  shows "hasFinished (stateAt path fl ts j) \<and>
     currentProgress (stateAt path fl ts j) = currentProgress (stateAt path fl ts i) \<and>
     lastTriggeredCheckpoint (stateAt path fl ts j) = lastTriggeredCheckpoint (stateAt path fl ts i) \<and>
     (progress (stateAt path fl ts j) = progress (stateAt path fl ts i) \<or>
      progress (stateAt path fl ts j) = currentProgress (stateAt path fl ts i))"
  using assms(2)
proof (induction j)
  case 0
  then show ?case using assms(1) by simp
next
  case (Suc j)
  show ?case
  proof (cases "i = Suc j")
    case True
    then show ?thesis using assms(1) by simp
  next
    case False
    then have ih: "hasFinished (stateAt path fl ts j) \<and>
     currentProgress (stateAt path fl ts j) = currentProgress (stateAt path fl ts i) \<and>
     lastTriggeredCheckpoint (stateAt path fl ts j) = lastTriggeredCheckpoint (stateAt path fl ts i) \<and>
     (progress (stateAt path fl ts j) = progress (stateAt path fl ts i) \<or>
      progress (stateAt path fl ts j) = currentProgress (stateAt path fl ts i))"
      using Suc by simp
    then have nr: "\<not> running path fl ts j"
      by (auto simp: running_def split: tick.splits)
    show ?thesis
    proof (cases "j < length ts")
      case True
      then show ?thesis using ih tick_not_running(2,3,4,5) [OF True nr] by auto
    next
      case False
      then show ?thesis using ih not_running_beyond [of ts j path fl] by simp
    qed
  qed
qed

lemma finished_silent:
  assumes "hasFinished (stateAt path fl ts k)"
  shows "emitted path fl ts k = []"
proof (cases "ts ! k")
  case Render
  then show ?thesis by (simp add: emitted_def)
next
  case (Callback f)
  then show ?thesis
    using assms useFrame_idle [of path f "stateAt path fl ts k" fl] by (simp add: emitted_def)
qed

lemma short_path_idle:
  assumes "length path < 2"
  shows "stateAt path fl ts j = mountCyclist"
proof (induction j)
  case 0
  show ?case by (simp add: stateAt_0)
next
  case (Suc j)
  show ?case
  proof (cases "j < length ts")
    case False
    then show ?thesis using Suc not_running_beyond [of ts j path fl] by simp
  next
    case True
    show ?thesis
    proof (cases "ts ! j")
      case Render
      then show ?thesis
        using Suc by (simp add: stateAt_Suc [OF True] tickStep_def renderProgress_def mountCyclist_def)
    next
      case (Callback f)
      then show ?thesis
        using Suc assms useFrame_idle [of path f mountCyclist fl]
        by (simp add: stateAt_Suc [OF True] tickStep_def)
    qed
  qed
qed

lemma speed_pos: "0 < speed"
  by (simp add: speed_def)

lemma delta_nonneg:
  assumes "\<forall>t\<in>set ts. 0 \<le> tickDelta t" "j < length ts" "ts ! j = Callback f"
  shows "0 \<le> speed * delta f"
proof -
  have "0 \<le> tickDelta (ts ! j)" using assms(1,2) by simp
  then show ?thesis using assms(3) speed_pos by (simp add: tickDelta_def)
qed

text \<open>
  With a rounding that is monotone, keeps 0 and keeps what it has rounded, and with elapsed
  times that are not negative: the progress of the last render is at least 0 and at most the
  value of the state, which is at most the last index.
\<close>

lemma progress_inv:
  assumes p: "path \<noteq> []" and d: "\<forall>t\<in>set ts. 0 \<le> tickDelta t"
    and z: "fl 0 = 0" and m: "\<forall>x y. x \<le> y \<longrightarrow> fl x \<le> fl y" and i: "\<forall>x. fl (fl x) = fl x"
  shows "0 \<le> progress (stateAt path fl ts j) \<and>
     progress (stateAt path fl ts j) \<le> currentProgress (stateAt path fl ts j) \<and>
     currentProgress (stateAt path fl ts j) \<le> real (length path) - 1 \<and>
     (\<not> hasFinished (stateAt path fl ts j) \<longrightarrow>
        fl (progress (stateAt path fl ts j)) = progress (stateAt path fl ts j) \<and>
        fl (currentProgress (stateAt path fl ts j)) = currentProgress (stateAt path fl ts j))"
proof (induction j)
  case 0
  show ?case
    using p z by (cases path) (simp_all add: stateAt_0 mountCyclist_def currentProgress_def)
next
  case (Suc j)
  show ?case
  proof (cases "j < length ts")
    case False
    then show ?thesis using Suc not_running_beyond [of ts j path fl] by simp
  next
    case True
    show ?thesis
    proof (cases "running path fl ts j")
      case False
      show ?thesis
        using Suc tick_not_running(2,4,5) [OF True False] by auto
    next
      case r: True
      then obtain f where t: "ts ! j = Callback f"
        by (cases "ts ! j") (simp_all add: running_def)
      have nf: "\<not> hasFinished (stateAt path fl ts j)"
        using r t by (simp add: running_def)
      define q where "q = progress (stateAt path fl ts j)"
      have q: "0 \<le> q" "q \<le> real (length path) - 1" "fl q = q"
        using Suc nf unfolding q_def by auto
      have "0 \<le> fl (speed * delta f)"
        using delta_nonneg [OF d True t] m z by metis
      then have "fl q \<le> fl (q + fl (speed * delta f))"
        using m by simp
      then have n: "q \<le> newProgressAt path fl ts j"
        using q(3) t by (simp add: newProgressAt_def q_def)
      have f: "fl (newProgressAt path fl ts j) = newProgressAt path fl ts j"
        using i t by (simp add: newProgressAt_def)
      show ?thesis
        using tick_running(1,2,3) [OF True r] n f q unfolding q_def by auto
    qed
  qed
qed

lemma progress_step:
  assumes "path \<noteq> []" "\<forall>t\<in>set ts. 0 \<le> tickDelta t"
    "fl 0 = 0" "\<forall>x y. x \<le> y \<longrightarrow> fl x \<le> fl y" "\<forall>x. fl (fl x) = fl x"
  shows "progress (stateAt path fl ts j) \<le> progress (stateAt path fl ts (Suc j))"
proof (cases "j < length ts")
  case False
  then show ?thesis using not_running_beyond [of ts j path fl] by simp
next
  case True
  show ?thesis
  proof (cases "running path fl ts j")
    case False
    then show ?thesis
      using tick_not_running(5) [OF True False] progress_inv [OF assms, of j] by auto
  next
    case r: True
    then show ?thesis using tick_running(1) [OF True r] by simp
  qed
qed

lemma progress_mono:
  assumes "path \<noteq> []" "\<forall>t\<in>set ts. 0 \<le> tickDelta t"
    "fl 0 = 0" "\<forall>x y. x \<le> y \<longrightarrow> fl x \<le> fl y" "\<forall>x. fl (fl x) = fl x"
    and "i \<le> j"
  shows "progress (stateAt path fl ts i) \<le> progress (stateAt path fl ts j)"
  using assms(6)
proof (induction j)
  case 0
  then show ?case by simp
next
  case (Suc j)
  show ?case
  proof (cases "i = Suc j")
    case True
    then show ?thesis by simp
  next
    case False
    then have "i \<le> j" using Suc.prems by simp
    then show ?thesis
      using Suc.IH progress_step [OF assms(1-5), of j] by linarith
  qed
qed

text \<open>After a render that follows the finish, the rendered progress is the last index.\<close>

lemma rendered_after_finish:
  assumes n: "2 \<le> length path" and f: "hasFinished (stateAt path fl ts m)"
    and mt: "m < length ts" "ts ! m = Render" and mk: "m < k"
  shows "progress (stateAt path fl ts k) = real (length path) - 1"
proof -
  have c: "currentProgress (stateAt path fl ts m) = real (length path) - 1"
    using finished_iff [OF n, of fl ts m] f by simp
  have "stateAt path fl ts (Suc m) = renderProgress (stateAt path fl ts m)"
    using mt by (simp add: stateAt_Suc tickStep_def)
  then have s: "progress (stateAt path fl ts (Suc m)) = real (length path) - 1"
    "hasFinished (stateAt path fl ts (Suc m))"
    "currentProgress (stateAt path fl ts (Suc m)) = real (length path) - 1"
    using c f by simp_all
  show ?thesis
    using finished_stable [OF s(2), of k] mk s(1,3) by auto
qed

lemma reach_end_frozen:
  assumes p: "path \<noteq> []" and j: "j < length ts" and r: "ts ! j = Callback f"
    "groupAttached f" "\<not> isPaused f"
    and e: "fl (progress (stateAt path fl ts j) + fl (speed * delta f)) \<ge> real (length path) - 1"
    and jk: "j < k"
  shows "currentProgress (stateAt path fl ts k) = real (length path) - 1"
    and "j < m \<and> m < k \<and> m < length ts \<and> ts ! m = Render \<longrightarrow>
         progress (stateAt path fl ts k) = real (length path) - 1"
proof -
  have "currentProgress (stateAt path fl ts k) = real (length path) - 1 \<and>
      (j < m \<and> m < k \<and> m < length ts \<and> ts ! m = Render \<longrightarrow>
         progress (stateAt path fl ts k) = real (length path) - 1)"
  proof (cases "2 \<le> length path")
    case False
    then have "length path < 2" by simp
    moreover have "length path = 1"
      using False p by (cases path) (simp_all add: not_le)
    ultimately show ?thesis
      using short_path_idle [of path fl ts k] by (simp add: mountCyclist_def currentProgress_def)
  next
    case True
    have f: "hasFinished (stateAt path fl ts (Suc j))"
    proof (cases "hasFinished (stateAt path fl ts j)")
      case True
      then show ?thesis using finished_stable [of path fl ts j "Suc j"] by simp
    next
      case False
      then have rj: "running path fl ts j" using True r by (simp add: running_def)
      show ?thesis
        using tick_running(3) [OF j rj] e r(1) by (simp add: newProgressAt_def)
    qed
    then have fk: "hasFinished (stateAt path fl ts k)"
      using finished_stable [OF f, of k] jk by simp
    then have c: "currentProgress (stateAt path fl ts k) = real (length path) - 1"
      using finished_iff [OF True, of fl ts k] by simp
    have "progress (stateAt path fl ts k) = real (length path) - 1"
      if "j < m" "m < k" "m < length ts" "ts ! m = Render"
    proof -
      have fm: "hasFinished (stateAt path fl ts m)"
        using finished_stable [OF f, of m] that(1) by simp
      show ?thesis
        using rendered_after_finish [OF \<open>2 \<le> length path\<close> fm that(3,4,2)] by simp
    qed
    then show ?thesis using c by blast
  qed
  then show "currentProgress (stateAt path fl ts k) = real (length path) - 1"
    and "j < m \<and> m < k \<and> m < length ts \<and> ts ! m = Render \<longrightarrow>
         progress (stateAt path fl ts k) = real (length path) - 1"
    by blast+
qed

text \<open>
  Claim C1. In every run of one mounted cyclist (a path with at least one cell, elapsed
  times that are not negative, any pattern of pauses, renders between any two calls of the
  frame callback or none), with a rounding that keeps 0, is monotone and keeps what it has
  rounded, as the rounding of the doubles does: the progress of the component, which is the
  value of its last render, stays between 0 and the last index of the path, and so does the
  value last written; the progress never decreases from a tick to a later tick; and after a
  Running call whose new progress reaches or exceeds the last index, the value written is
  exactly the last index at every later tick, and so is the progress from the first render
  after the call on. Only rendered values are compared: a value that a call has written and
  no render has taken in yet is replaced by what the next call writes, which that call
  computes from the same rendered progress and which can be smaller.
\<close>

theorem cyclist_progress_bounded_monotone:
  assumes "path \<noteq> []" and "\<forall>t\<in>set ts. 0 \<le> tickDelta t"
    and "fl 0 = 0" and "\<forall>x y. x \<le> y \<longrightarrow> fl x \<le> fl y" and "\<forall>x. fl (fl x) = fl x"
  shows "0 \<le> progress (stateAt path fl ts j) \<and>
         progress (stateAt path fl ts j) \<le> real (length path) - 1 \<and>
         0 \<le> currentProgress (stateAt path fl ts j) \<and>
         currentProgress (stateAt path fl ts j) \<le> real (length path) - 1 \<and>
         (i \<le> j \<longrightarrow> progress (stateAt path fl ts i) \<le> progress (stateAt path fl ts j)) \<and>
         (j < length ts \<and> running path fl ts j \<and>
            newProgressAt path fl ts j \<ge> real (length path) - 1 \<and> j < k \<longrightarrow>
          currentProgress (stateAt path fl ts k) = real (length path) - 1 \<and>
          (j < m \<and> m < k \<and> m < length ts \<and> ts ! m = Render \<longrightarrow>
             progress (stateAt path fl ts k) = real (length path) - 1))"
proof -
  have "currentProgress (stateAt path fl ts k) = real (length path) - 1 \<and>
          (j < m \<and> m < k \<and> m < length ts \<and> ts ! m = Render \<longrightarrow>
             progress (stateAt path fl ts k) = real (length path) - 1)"
    if a: "j < length ts" "running path fl ts j"
      "newProgressAt path fl ts j \<ge> real (length path) - 1" "j < k"
  proof -
    obtain f where f: "ts ! j = Callback f" "groupAttached f" "\<not> isPaused f"
      using a(2) by (cases "ts ! j") (simp_all add: running_def)
    have "fl (progress (stateAt path fl ts j) + fl (speed * delta f)) \<ge> real (length path) - 1"
      using a(3) f(1) by (simp add: newProgressAt_def)
    note e = this
    show ?thesis
      using reach_end_frozen(1) [where path = path and fl = fl and ts = ts and j = j and f = f
          and k = k, OF assms(1) a(1) f e a(4)]
        reach_end_frozen(2) [where path = path and fl = fl and ts = ts and j = j and f = f
          and k = k and m = m, OF assms(1) a(1) f e a(4)]
      by blast
  qed
  then show ?thesis
    using progress_inv [OF assms, of j] progress_mono [OF assms, of i j] by auto
qed

theorem cyclist_progress_bounded_monotone_witness:
  "(let path = snd (generateWindingPath (\<lambda>n. 0) 0 \<lparr>px = 0, py = 14\<rparr> \<lparr>px = 14, py = 0\<rparr>);
        fl = (\<lambda>x. x);
        ts = [Callback \<lparr>groupAttached = True, isPaused = False, delta = 5\<rparr>,
              Callback \<lparr>groupAttached = True, isPaused = False, delta = 1\<rparr>,
              Render,
              Callback \<lparr>groupAttached = True, isPaused = True, delta = 1\<rparr>,
              Callback \<lparr>groupAttached = True, isPaused = False, delta = 40\<rparr>,
              Render,
              Callback \<lparr>groupAttached = True, isPaused = False, delta = 1\<rparr>]
    in path \<noteq> [] \<and> list_all (\<lambda>t. 0 \<le> tickDelta t) ts \<and>
       progress (stateAt path fl ts 1) = 0 \<and>
       currentProgress (stateAt path fl ts 1) = 5 * speed \<and>
       currentProgress (stateAt path fl ts 2) = speed \<and>
       progress (stateAt path fl ts 3) = speed \<and>
       progress (stateAt path fl ts 1) \<le> progress (stateAt path fl ts 3) \<and>
       running path fl ts 4 \<and>
       newProgressAt path fl ts 4 \<ge> real (length path) - 1 \<and>
       ts ! 5 = Render \<and>
       currentProgress (stateAt path fl ts 7) = real (length path) - 1 \<and>
       progress (stateAt path fl ts 7) = real (length path) - 1)"
proof -
  define path where "path = snd (generateWindingPath (\<lambda>n. 0) 0 \<lparr>px = 0, py = 14\<rparr> \<lparr>px = 14, py = 0\<rparr>)"
  define fl :: rounding where "fl = (\<lambda>x. x)"
  define ts where "ts =
     [Callback \<lparr>groupAttached = True, isPaused = False, delta = 5\<rparr>,
      Callback \<lparr>groupAttached = True, isPaused = False, delta = 1\<rparr>,
      Render,
      Callback \<lparr>groupAttached = True, isPaused = True, delta = 1\<rparr>,
      Callback \<lparr>groupAttached = True, isPaused = False, delta = 40\<rparr>,
      Render,
      Callback \<lparr>groupAttached = True, isPaused = False, delta = 1\<rparr>]"
  have l: "length path = 47" unfolding path_def by code_simp
  then have h1: "path \<noteq> []" by auto
  have h2: "\<forall>t\<in>set ts. 0 \<le> tickDelta t" by (simp add: ts_def tickDelta_def)
  have h3: "fl 0 = 0" "\<forall>x y. x \<le> y \<longrightarrow> fl x \<le> fl y" "\<forall>x. fl (fl x) = fl x"
    by (simp_all add: fl_def)
  have s1: "progress (stateAt path fl ts 1) = 0"
    "currentProgress (stateAt path fl ts 1) = 5 * speed"
    "currentProgress (stateAt path fl ts 2) = speed"
    "progress (stateAt path fl ts 3) = speed"
    unfolding ts_def path_def fl_def by code_simp+
  have r: "running path fl ts 4"
    "newProgressAt path fl ts 4 \<ge> real (length path) - 1"
    unfolding ts_def path_def fl_def by code_simp+
  have p: "4 < length ts" "(4::nat) < 7" "(4::nat) < 5" "(5::nat) < 7" "5 < length ts"
    "ts ! 5 = Render"
    by (simp_all add: ts_def)
  from cyclist_progress_bounded_monotone [OF h1 h2 h3, of 4 1 7 5]
  have "currentProgress (stateAt path fl ts 7) = real (length path) - 1 \<and>
      progress (stateAt path fl ts 7) = real (length path) - 1"
    using r p by blast
  moreover from cyclist_progress_bounded_monotone [OF h1 h2 h3, of 3 1]
  have "progress (stateAt path fl ts 1) \<le> progress (stateAt path fl ts 3)"
    by simp
  ultimately show ?thesis
    using h1 h2 s1 r p
    unfolding path_def [symmetric] fl_def [symmetric] ts_def [symmetric] Let_def
    by (simp add: list_all_iff)
qed

text \<open>The finish notification.\<close>

lemma Finish_emitted_iff:
  assumes "j < length ts"
  shows "Finish \<in> set (emitted path fl ts j) \<longleftrightarrow>
     running path fl ts j \<and> newProgressAt path fl ts j \<ge> real (length path) - 1"
proof (cases "running path fl ts j")
  case False
  then show ?thesis using tick_not_running(1) [OF assms False] by simp
next
  case True
  then show ?thesis using tick_running(5) [OF assms True] by simp
qed

lemma count_Finish_emitted:
  assumes "j < length ts"
  shows "count_list (emitted path fl ts j) Finish =
     (if running path fl ts j \<and> newProgressAt path fl ts j \<ge> real (length path) - 1
      then 1 else 0)"
proof (cases "running path fl ts j")
  case False
  then show ?thesis using tick_not_running(1) [OF assms False] by simp
next
  case True
  then show ?thesis using tick_running(5) [OF assms True] by simp
qed

lemma Finish_first_reach:
  assumes "j < length ts"
  shows "Finish \<in> set (emitted path fl ts j) \<longleftrightarrow>
     currentProgress (stateAt path fl ts j) < real (length path) - 1 \<and>
     currentProgress (stateAt path fl ts (Suc j)) = real (length path) - 1"
proof (cases "running path fl ts j")
  case False
  then show ?thesis
    using tick_not_running(1,4) [OF assms False] by simp
next
  case True
  then have "2 \<le> length path" "\<not> hasFinished (stateAt path fl ts j)"
    by (auto simp: running_def split: tick.splits)
  then have "currentProgress (stateAt path fl ts j) < real (length path) - 1"
    using finished_iff [of path fl ts j] by simp
  then show ?thesis
    using Finish_emitted_iff [OF assms, of path fl] tick_running(2) [OF assms True] True
    by auto
qed

lemma count_Finish_prefix:
  "m \<le> length ts \<Longrightarrow>
   count_list (concat (map (emitted path fl ts) [0..<m])) Finish =
     (if hasFinished (stateAt path fl ts m) then 1 else 0)"
proof (induction m)
  case 0
  then show ?case by (simp add: stateAt_0 mountCyclist_def)
next
  case (Suc m)
  then have m: "m < length ts" by simp
  have ih: "count_list (concat (map (emitted path fl ts) [0..<m])) Finish =
     (if hasFinished (stateAt path fl ts m) then 1 else 0)"
    using Suc by simp
  show ?case
  proof (cases "running path fl ts m")
    case False
    then show ?thesis
      using ih tick_not_running(1,2) [OF m False] by simp
  next
    case True
    then have "\<not> hasFinished (stateAt path fl ts m)"
      by (auto simp: running_def split: tick.splits)
    then show ?thesis
      using ih count_Finish_emitted [OF m, of path fl] tick_running(3) [OF m True] True
      by simp
  qed
qed

lemma Finish_then_frozen:
  assumes "j < length ts" "Finish \<in> set (emitted path fl ts j)" "j < k"
  shows "currentProgress (stateAt path fl ts k) = real (length path) - 1"
    and "emitted path fl ts k = []"
    and "progress (stateAt path fl ts k) = progress (stateAt path fl ts j) \<or>
         progress (stateAt path fl ts k) = real (length path) - 1"
proof -
  have r: "running path fl ts j" and n: "newProgressAt path fl ts j \<ge> real (length path) - 1"
    using assms(1,2) Finish_emitted_iff by blast+
  then have f: "hasFinished (stateAt path fl ts (Suc j))"
    using tick_running(3) [OF assms(1) r] by simp
  have c: "currentProgress (stateAt path fl ts (Suc j)) = real (length path) - 1"
    using tick_running(2) [OF assms(1) r] n by simp
  have p: "progress (stateAt path fl ts (Suc j)) = progress (stateAt path fl ts j)"
    using tick_running(1) [OF assms(1) r] .
  have s: "hasFinished (stateAt path fl ts k) \<and>
     currentProgress (stateAt path fl ts k) = currentProgress (stateAt path fl ts (Suc j)) \<and>
     (progress (stateAt path fl ts k) = progress (stateAt path fl ts (Suc j)) \<or>
      progress (stateAt path fl ts k) = currentProgress (stateAt path fl ts (Suc j)))"
    using finished_stable [OF f, of k] assms(3) by simp
  show "currentProgress (stateAt path fl ts k) = real (length path) - 1"
    using s c by simp
  show "emitted path fl ts k = []"
    using s finished_silent [of path fl ts k] by simp
  show "progress (stateAt path fl ts k) = progress (stateAt path fl ts j) \<or>
         progress (stateAt path fl ts k) = real (length path) - 1"
    using s c p by auto
qed

text \<open>
  Claim C5. In every run of one mounted cyclist, whatever the rounding: tick \<open>j\<close> invokes
  \<^verbatim>\<open>onFinish\<close> exactly when it is the update at which the progress first reaches the last
  path index, that is, the value of the state is below the last index before the tick and
  equal to it after. The whole run invokes \<^verbatim>\<open>onFinish\<close> at most once, and exactly once
  when (on a path of at least two cells) the run ends with the value of the state at the
  last index. After the tick that invokes it, the value of the state stays at the last
  index and no tick invokes any callback; the rendered progress is the one of that tick
  until the next render, and the last index from the next render on.
\<close>

theorem cyclist_finish_once:
  "(j < length ts \<longrightarrow>
      (Finish \<in> set (emitted path fl ts j) \<longleftrightarrow>
         currentProgress (stateAt path fl ts j) < real (length path) - 1 \<and>
         currentProgress (stateAt path fl ts (Suc j)) = real (length path) - 1)) \<and>
   count_list (concat (map (emitted path fl ts) [0..<length ts])) Finish \<le> 1 \<and>
   (2 \<le> length path \<longrightarrow>
      count_list (concat (map (emitted path fl ts) [0..<length ts])) Finish =
        (if currentProgress (stateAt path fl ts (length ts)) = real (length path) - 1
         then 1 else 0)) \<and>
   (j < length ts \<and> Finish \<in> set (emitted path fl ts j) \<and> j < k \<longrightarrow>
      currentProgress (stateAt path fl ts k) = real (length path) - 1 \<and>
      emitted path fl ts k = [] \<and>
      (progress (stateAt path fl ts k) = progress (stateAt path fl ts j) \<or>
       progress (stateAt path fl ts k) = real (length path) - 1) \<and>
      (j < m \<and> m < k \<and> m < length ts \<and> ts ! m = Render \<longrightarrow>
         progress (stateAt path fl ts k) = real (length path) - 1))"
proof -
  have c: "count_list (concat (map (emitted path fl ts) [0..<length ts])) Finish =
      (if hasFinished (stateAt path fl ts (length ts)) then 1 else 0)"
    using count_Finish_prefix [of "length ts" ts path fl] by simp
  have h: "2 \<le> length path \<Longrightarrow>
      hasFinished (stateAt path fl ts (length ts)) \<longleftrightarrow>
      currentProgress (stateAt path fl ts (length ts)) = real (length path) - 1"
    using finished_iff [of path fl ts "length ts"] by auto
  have r: "progress (stateAt path fl ts k) = real (length path) - 1"
    if a: "j < length ts" "Finish \<in> set (emitted path fl ts j)" "j < k"
      "j < m" "m < k" "m < length ts" "ts ! m = Render"
  proof -
    have rj: "running path fl ts j"
      using a(1,2) Finish_emitted_iff by blast
    then have l: "2 \<le> length path"
      by (auto simp: running_def split: tick.splits)
    have "hasFinished (stateAt path fl ts (Suc j))"
      using tick_running(3) [OF a(1) rj] a(1,2) Finish_emitted_iff [of j ts path fl] by simp
    then have "hasFinished (stateAt path fl ts m)"
      using finished_stable [of path fl ts "Suc j" m] a(4) by simp
    then show ?thesis
      using rendered_after_finish [OF l _ a(6,7,5)] by simp
  qed
  show ?thesis
    using c h r Finish_first_reach [of j ts path fl] Finish_then_frozen [of j ts path fl k]
    by auto
qed

theorem cyclist_finish_once_witness:
  "(let path = snd (generateWindingPath (\<lambda>n. 0) 0 \<lparr>px = 0, py = 14\<rparr> \<lparr>px = 14, py = 0\<rparr>);
        fl = (\<lambda>x. x);
        ts = [Callback \<lparr>groupAttached = True, isPaused = False, delta = 5\<rparr>,
              Callback \<lparr>groupAttached = True, isPaused = False, delta = 1\<rparr>,
              Render,
              Callback \<lparr>groupAttached = True, isPaused = True, delta = 1\<rparr>,
              Callback \<lparr>groupAttached = True, isPaused = False, delta = 40\<rparr>,
              Callback \<lparr>groupAttached = True, isPaused = False, delta = 1\<rparr>,
              Render,
              Callback \<lparr>groupAttached = True, isPaused = False, delta = 1\<rparr>]
    in emitted path fl ts 4 = [Finish] \<and>
       currentProgress (stateAt path fl ts 4) < real (length path) - 1 \<and>
       currentProgress (stateAt path fl ts (Suc 4)) = real (length path) - 1 \<and>
       count_list (concat (map (emitted path fl ts) [0..<length ts])) Finish = 1 \<and>
       currentProgress (stateAt path fl ts (length ts)) = real (length path) - 1 \<and>
       currentProgress (stateAt path fl ts 5) = real (length path) - 1 \<and>
       emitted path fl ts 5 = [] \<and>
       progress (stateAt path fl ts 5) = progress (stateAt path fl ts 4) \<and>
       ts ! 6 = Render \<and>
       emitted path fl ts 7 = [] \<and>
       progress (stateAt path fl ts 8) = real (length path) - 1)"
proof -
  define path where "path = snd (generateWindingPath (\<lambda>n. 0) 0 \<lparr>px = 0, py = 14\<rparr> \<lparr>px = 14, py = 0\<rparr>)"
  define fl :: rounding where "fl = (\<lambda>x. x)"
  define ts where "ts =
     [Callback \<lparr>groupAttached = True, isPaused = False, delta = 5\<rparr>,
      Callback \<lparr>groupAttached = True, isPaused = False, delta = 1\<rparr>,
      Render,
      Callback \<lparr>groupAttached = True, isPaused = True, delta = 1\<rparr>,
      Callback \<lparr>groupAttached = True, isPaused = False, delta = 40\<rparr>,
      Callback \<lparr>groupAttached = True, isPaused = False, delta = 1\<rparr>,
      Render,
      Callback \<lparr>groupAttached = True, isPaused = False, delta = 1\<rparr>]"
  have l: "length path = 47" unfolding path_def by code_simp
  have e: "emitted path fl ts 4 = [Finish]"
    unfolding ts_def path_def fl_def by code_simp
  have p: "progress (stateAt path fl ts 4) = speed"
    "progress (stateAt path fl ts 5) = speed"
    unfolding ts_def path_def fl_def by code_simp+
  have j: "4 < length ts" "(4::nat) < 5" "(4::nat) < 8" "(4::nat) < 6" "(6::nat) < 8"
    "6 < length ts" "ts ! 6 = Render" "length ts = 8" "(4::nat) < 7"
    by (simp_all add: ts_def)
  have t: "2 \<le> length path" using l by simp
  have f: "Finish \<in> set (emitted path fl ts 4)" using e by simp
  have a: "currentProgress (stateAt path fl ts 4) < real (length path) - 1 \<and>
       currentProgress (stateAt path fl ts (Suc 4)) = real (length path) - 1 \<and>
       currentProgress (stateAt path fl ts 5) = real (length path) - 1 \<and>
       emitted path fl ts 5 = []"
    using cyclist_finish_once [of 4 ts path fl 5] j f by simp
  have b: "count_list (concat (map (emitted path fl ts) [0..<length ts])) Finish = 1 \<and>
       currentProgress (stateAt path fl ts (length ts)) = real (length path) - 1 \<and>
       progress (stateAt path fl ts 8) = real (length path) - 1"
    using cyclist_finish_once [of 4 ts path fl 8 6] j f t by (simp split: if_splits)
  have c: "emitted path fl ts 7 = []"
    using cyclist_finish_once [of 4 ts path fl 7] j f by simp
  show ?thesis
    using a b c e p j(7)
    unfolding path_def [symmetric] fl_def [symmetric] ts_def [symmetric] Let_def
    by simp
qed

text \<open>The checkpoint trigger.\<close>

lemma Reach_emitted_iff:
  assumes "j < length ts"
  shows "ReachCheckpoint cp \<in> set (emitted path fl ts j) \<longleftrightarrow>
     running path fl ts j \<and>
     indexAt path fl ts j \<in> set (getCheckpointIndices (length path)) \<and>
     lastTriggeredCheckpoint (stateAt path fl ts j) \<noteq> indexAt path fl ts j \<and>
     cp = indexOf (getCheckpointIndices (length path)) (indexAt path fl ts j)"
proof (cases "running path fl ts j")
  case False
  then show ?thesis using tick_not_running(1) [OF assms False] by simp
next
  case True
  then show ?thesis using tick_running(5) [OF assms True] by auto
qed

lemma lastTriggered_inv:
  assumes c: "c \<in> set (getCheckpointIndices (length path))"
  shows "j \<le> length ts \<Longrightarrow>
    lastTriggeredCheckpoint (stateAt path fl ts j) = c \<longleftrightarrow>
      (\<exists>i<j. running path fl ts i \<and> indexAt path fl ts i = c \<and>
         (\<forall>k. i < k \<and> k < j \<longrightarrow> \<not> running path fl ts k))"
proof (induction j)
  case 0
  have "c \<noteq> - 1" using getCheckpointIndices_nonneg [OF c] by simp
  then show ?case by (simp add: stateAt_0 mountCyclist_def)
next
  case (Suc j)
  then have j: "j < length ts" by simp
  have ih: "lastTriggeredCheckpoint (stateAt path fl ts j) = c \<longleftrightarrow>
      (\<exists>i<j. running path fl ts i \<and> indexAt path fl ts i = c \<and>
         (\<forall>k. i < k \<and> k < j \<longrightarrow> \<not> running path fl ts k))"
    using Suc by simp
  show ?case
  proof (cases "running path fl ts j")
    case False
    have "(\<exists>i<Suc j. running path fl ts i \<and> indexAt path fl ts i = c \<and>
         (\<forall>k. i < k \<and> k < Suc j \<longrightarrow> \<not> running path fl ts k)) \<longleftrightarrow>
       (\<exists>i<j. running path fl ts i \<and> indexAt path fl ts i = c \<and>
         (\<forall>k. i < k \<and> k < j \<longrightarrow> \<not> running path fl ts k))"
      using False by (metis less_Suc_eq)
    then show ?thesis
      using ih tick_not_running(3) [OF j False] by simp
  next
    case True
    have "(\<exists>i<Suc j. running path fl ts i \<and> indexAt path fl ts i = c \<and>
         (\<forall>k. i < k \<and> k < Suc j \<longrightarrow> \<not> running path fl ts k)) \<longleftrightarrow> indexAt path fl ts j = c"
    proof
      assume "\<exists>i<Suc j. running path fl ts i \<and> indexAt path fl ts i = c \<and>
         (\<forall>k. i < k \<and> k < Suc j \<longrightarrow> \<not> running path fl ts k)"
      then obtain i where i: "i < Suc j" "indexAt path fl ts i = c"
        "\<forall>k. i < k \<and> k < Suc j \<longrightarrow> \<not> running path fl ts k"
        by blast
      show "indexAt path fl ts j = c"
      proof (rule ccontr)
        assume n: "indexAt path fl ts j \<noteq> c"
        then have "i \<noteq> j" using i(2) by auto
        then have "i < j" using i(1) by simp
        then have "\<not> running path fl ts j" using i(3) by simp
        then show False using True by simp
      qed
    next
      assume "indexAt path fl ts j = c"
      then show "\<exists>i<Suc j. running path fl ts i \<and> indexAt path fl ts i = c \<and>
         (\<forall>k. i < k \<and> k < Suc j \<longrightarrow> \<not> running path fl ts k)"
        using True by (intro exI [of _ j]) auto
    qed
    moreover have "lastTriggeredCheckpoint (stateAt path fl ts (Suc j)) = c \<longleftrightarrow>
        indexAt path fl ts j = c"
    proof -
      have "c \<noteq> - 1" using getCheckpointIndices_nonneg [OF c] by simp
      then show ?thesis using tick_running(4) [OF j True] c by auto
    qed
    ultimately show ?thesis by simp
  qed
qed

text \<open>
  A tick invokes \<^verbatim>\<open>onReachCheckpoint\<close> exactly when it is a Running call, the floor of the
  progress it computes is a checkpoint index, and the Running call before it, if there is
  one, did not compute the same floored index.
\<close>

lemma checkpoint_fires_on_change_of_index:
  assumes "j < length ts"
  shows "ReachCheckpoint cp \<in> set (emitted path fl ts j) \<longleftrightarrow>
            running path fl ts j \<and>
            indexAt path fl ts j \<in> set (getCheckpointIndices (length path)) \<and>
            cp = indexOf (getCheckpointIndices (length path)) (indexAt path fl ts j) \<and>
            \<not> (\<exists>i<j. running path fl ts i \<and> indexAt path fl ts i = indexAt path fl ts j \<and>
                  (\<forall>k. i < k \<and> k < j \<longrightarrow> \<not> running path fl ts k))"
  using Reach_emitted_iff [OF assms, of cp path fl]
    lastTriggered_inv [of "indexAt path fl ts j" path j ts fl] assms
  by auto

text \<open>
  The floored index can go back, although no elapsed time is negative: a call that comes
  before the render of the call before it reads the progress that call has read, not the
  progress that call has written. \<^verbatim>\<open>progress\<close> is state of the component, which the
  callback reads through its closure, whereas the two guards \<^verbatim>\<open>lastTriggeredCheckpoint\<close>
  and \<^verbatim>\<open>hasFinished\<close> are refs.
\<close>

lemma stateAt_step:
  "j < length ts \<Longrightarrow> k = Suc j \<Longrightarrow>
   stateAt path fl ts k = tickStep path fl (stateAt path fl ts j) (ts ! j)"
  by (simp add: stateAt_Suc)

lemma rounding_near:
  fixes fl :: rounding
  assumes "\<forall>x. 0 \<le> x \<and> x \<le> 100 \<longrightarrow> \<bar>fl x - x\<bar> \<le> 1 / 100" "0 \<le> x" "x \<le> 100"
  shows "x - 1 / 100 \<le> fl x" "fl x \<le> x + 1 / 100"
proof -
  have "\<bar>fl x - x\<bar> \<le> 1 / 100" using assms by blast
  then show "x - 1 / 100 \<le> fl x" "fl x \<le> x + 1 / 100" by linarith+
qed

text \<open>
  Claim C2, which the code does not meet. On a path of 47 cells (the length of every
  generated path), with a rounding that is within 1/100 of the exact result between 0 and
  100 (the rounding of the doubles is much closer): the first call, with the elapsed time
  6, computes the floored index 7, which is the first checkpoint index, and invokes
  \<^verbatim>\<open>onReachCheckpoint(0)\<close>. The second call, with the elapsed time 5.5, comes before the
  render: it reads the progress 0 again, computes the floored index 6 and clears the guard.
  After the render, a paused call and the render that ends the pause, the last call, with
  the elapsed time 0.5, computes the floored index 7 and invokes \<^verbatim>\<open>onReachCheckpoint(0)\<close>
  a second time. No elapsed time is negative, and the cyclist is not restarted.
\<close>

theorem checkpoint_refires_after_stale_read:
  assumes "length path = 47"
    and "\<forall>x. 0 \<le> x \<and> x \<le> 100 \<longrightarrow> \<bar>fl x - x\<bar> \<le> 1 / 100"
  shows "(let ts = [Callback \<lparr>groupAttached = True, isPaused = False, delta = 6\<rparr>,
                    Callback \<lparr>groupAttached = True, isPaused = False, delta = 11 / 2\<rparr>,
                    Render,
                    Callback \<lparr>groupAttached = True, isPaused = True, delta = 1\<rparr>,
                    Render,
                    Callback \<lparr>groupAttached = True, isPaused = False, delta = 1 / 2\<rparr>]
          in list_all (\<lambda>t. 0 \<le> tickDelta t) ts \<and>
             running path fl ts 0 \<and> indexAt path fl ts 0 = 7 \<and>
             emitted path fl ts 0 = [ReachCheckpoint 0] \<and>
             progress (stateAt path fl ts 1) = 0 \<and>
             running path fl ts 1 \<and> indexAt path fl ts 1 = 6 \<and>
             emitted path fl ts 1 = [] \<and>
             emitted path fl ts 2 = [] \<and>
             emitted path fl ts 3 = [] \<and>
             emitted path fl ts 4 = [] \<and>
             running path fl ts 5 \<and> indexAt path fl ts 5 = 7 \<and>
             emitted path fl ts 5 = [ReachCheckpoint 0])"
proof -
  define ts where "ts =
     [Callback \<lparr>groupAttached = True, isPaused = False, delta = 6\<rparr>,
      Callback \<lparr>groupAttached = True, isPaused = False, delta = 11 / 2\<rparr>,
      Render,
      Callback \<lparr>groupAttached = True, isPaused = True, delta = 1\<rparr>,
      Render,
      Callback \<lparr>groupAttached = True, isPaused = False, delta = 1 / 2\<rparr>]"
  note n = rounding_near [OF assms(2)]
  define a where "a = fl (speed * 6)"
  define a' where "a' = fl (0 + a)"
  define b where "b = fl (speed * (11 / 2))"
  define b' where "b' = fl (0 + b)"
  define d where "d = fl (speed * (1 / 2))"
  define d' where "d' = fl (b' + d)"
  have a: "718 / 100 \<le> a" "a \<le> 721 / 100"
    using n [of "speed * 6"] by (simp_all add: a_def speed_def)
  have a': "7 \<le> a'" "a' < 8"
    using n [of "0 + a"] a by (simp_all add: a'_def)
  have b: "658 / 100 \<le> b" "b \<le> 661 / 100"
    using n [of "speed * (11 / 2)"] by (simp_all add: b_def speed_def)
  have b': "657 / 100 \<le> b'" "b' \<le> 662 / 100"
    using n [of "0 + b"] b by (simp_all add: b'_def)
  have d: "58 / 100 \<le> d" "d \<le> 61 / 100"
    using n [of "speed * (1 / 2)"] by (simp_all add: d_def speed_def)
  have d': "7 \<le> d'" "d' < 8"
    using n [of "b' + d"] b' d by (simp_all add: d'_def)
  have fa: "\<lfloor>a'\<rfloor> = 7" using a' by (simp add: floor_eq_iff)
  have fb: "\<lfloor>b'\<rfloor> = 6" using b' by (simp add: floor_eq_iff)
  have fd: "\<lfloor>d'\<rfloor> = 7" using d' by (simp add: floor_eq_iff)
  have g: "getCheckpointIndices 47 = [7, 15, 23, 31, 39]"
    by (simp add: getCheckpointIndices_eq)
  have l: "2 \<le> length path" using assms(1) by simp
  have len: "length ts = 6" by (simp add: ts_def)
  have t: "ts ! 0 = Callback \<lparr>groupAttached = True, isPaused = False, delta = 6\<rparr>"
    "ts ! 1 = Callback \<lparr>groupAttached = True, isPaused = False, delta = 11 / 2\<rparr>"
    "ts ! 2 = Render"
    "ts ! 3 = Callback \<lparr>groupAttached = True, isPaused = True, delta = 1\<rparr>"
    "ts ! 4 = Render"
    "ts ! 5 = Callback \<lparr>groupAttached = True, isPaused = False, delta = 1 / 2\<rparr>"
    by (simp_all add: ts_def)
  define c1 where "c1 = \<lparr>progress = 0, pendingProgress = Some a',
      lastTriggeredCheckpoint = 7, hasFinished = False\<rparr>"
  define c2 where "c2 = \<lparr>progress = 0, pendingProgress = Some b',
      lastTriggeredCheckpoint = - 1, hasFinished = False\<rparr>"
  define c3 where "c3 = \<lparr>progress = b', pendingProgress = None,
      lastTriggeredCheckpoint = - 1, hasFinished = False\<rparr>"
  define c4 where "c4 = \<lparr>progress = b', pendingProgress = Some d',
      lastTriggeredCheckpoint = 7, hasFinished = False\<rparr>"
  have e0: "a' = fl (progress mountCyclist +
      fl (speed * delta \<lparr>groupAttached = True, isPaused = False, delta = 6\<rparr>))"
    by (simp add: a'_def a_def mountCyclist_def)
  have e1: "b' = fl (progress c1 +
      fl (speed * delta \<lparr>groupAttached = True, isPaused = False, delta = 11 / 2\<rparr>))"
    by (simp add: b'_def b_def c1_def)
  have e5: "d' = fl (progress c3 +
      fl (speed * delta \<lparr>groupAttached = True, isPaused = False, delta = 1 / 2\<rparr>))"
    by (simp add: d'_def d_def c3_def)
  have u0: "useFrame path fl \<lparr>groupAttached = True, isPaused = False, delta = 6\<rparr> mountCyclist =
      (c1, [ReachCheckpoint 0])"
    using useFrame_running [where path = path and fl = fl and c = mountCyclist and new = a'
        and f = "\<lparr>groupAttached = True, isPaused = False, delta = 6\<rparr>", OF l _ _ _ e0] a'
    by (simp add: assms(1) fa g c1_def mountCyclist_def)
  have s0: "stateAt path fl ts 0 = mountCyclist" by (rule stateAt_0)
  have s1: "stateAt path fl ts 1 = c1"
    using stateAt_step [of 0 ts 1 path fl] s0 t(1) u0 len by (simp add: tickStep_def)
  have u1: "useFrame path fl \<lparr>groupAttached = True, isPaused = False, delta = 11 / 2\<rparr> c1 =
      (c2, [])"
    using useFrame_running [where path = path and fl = fl and c = c1 and new = b'
        and f = "\<lparr>groupAttached = True, isPaused = False, delta = 11 / 2\<rparr>", OF l _ _ _ e1] b'
    by (simp add: assms(1) fb g c1_def c2_def)
  have s2: "stateAt path fl ts 2 = c2"
    using stateAt_step [of 1 ts 2 path fl] s1 t(2) u1 len by (simp add: tickStep_def)
  have s3: "stateAt path fl ts 3 = c3"
    using stateAt_step [of 2 ts 3 path fl] s2 t(3) len
    by (simp add: tickStep_def renderProgress_def c2_def c3_def)
  have u3: "useFrame path fl \<lparr>groupAttached = True, isPaused = True, delta = 1\<rparr> c3 = (c3, [])"
    by (simp add: useFrame_idle)
  have s4: "stateAt path fl ts 4 = c3"
    using stateAt_step [of 3 ts 4 path fl] s3 t(4) u3 len
    by (simp add: tickStep_def)
  have s5: "stateAt path fl ts 5 = c3"
    using stateAt_step [of 4 ts 5 path fl] s4 t(5) len
    by (simp add: tickStep_def renderProgress_def c3_def)
  have u5: "useFrame path fl \<lparr>groupAttached = True, isPaused = False, delta = 1 / 2\<rparr> c3 =
      (c4, [ReachCheckpoint 0])"
    using useFrame_running [where path = path and fl = fl and c = c3 and new = d'
        and f = "\<lparr>groupAttached = True, isPaused = False, delta = 1 / 2\<rparr>", OF l _ _ _ e5] d'
    by (simp add: assms(1) fd g c3_def c4_def)
  have "list_all (\<lambda>t. 0 \<le> tickDelta t) ts"
    by (simp add: ts_def tickDelta_def)
  moreover have "running path fl ts 0" "running path fl ts 1" "running path fl ts 5"
    using l s0 s1 s5 t by (simp_all add: running_def mountCyclist_def c1_def c3_def)
  moreover have "indexAt path fl ts 0 = 7" "indexAt path fl ts 1 = 6" "indexAt path fl ts 5 = 7"
    using s0 s1 s5 t fa fb fd e0 e1 e5
    by (simp_all add: indexAt_def newProgressAt_def)
  moreover have "emitted path fl ts 0 = [ReachCheckpoint 0]" "emitted path fl ts 1 = []"
    "emitted path fl ts 2 = []" "emitted path fl ts 3 = []" "emitted path fl ts 4 = []"
    "emitted path fl ts 5 = [ReachCheckpoint 0]"
    using s0 s1 s3 s5 t u0 u1 u3 u5 by (simp_all add: emitted_def)
  moreover have "progress (stateAt path fl ts 1) = 0"
    using s1 by (simp add: c1_def)
  ultimately show ?thesis
    unfolding ts_def [symmetric] Let_def by simp
qed

theorem checkpoint_refires_after_stale_read_witness:
  "(let path = snd (generateWindingPath (\<lambda>n. 0) 0 \<lparr>px = 0, py = 14\<rparr> \<lparr>px = 14, py = 0\<rparr>);
        fl = (\<lambda>x. x);
        ts = [Callback \<lparr>groupAttached = True, isPaused = False, delta = 6\<rparr>,
              Callback \<lparr>groupAttached = True, isPaused = False, delta = 11 / 2\<rparr>,
              Render,
              Callback \<lparr>groupAttached = True, isPaused = True, delta = 1\<rparr>,
              Render,
              Callback \<lparr>groupAttached = True, isPaused = False, delta = 1 / 2\<rparr>]
    in length path = 47 \<and>
       list_all (\<lambda>t. 0 \<le> tickDelta t) ts \<and>
       indexAt path fl ts 0 = 7 \<and>
       emitted path fl ts 0 = [ReachCheckpoint 0] \<and>
       progress (stateAt path fl ts 1) = 0 \<and>
       indexAt path fl ts 1 = 6 \<and>
       indexAt path fl ts 5 = 7 \<and>
       emitted path fl ts 5 = [ReachCheckpoint 0])"
proof -
  define path where "path = snd (generateWindingPath (\<lambda>n. 0) 0 \<lparr>px = 0, py = 14\<rparr> \<lparr>px = 14, py = 0\<rparr>)"
  define fl :: rounding where "fl = (\<lambda>x. x)"
  have l: "length path = 47" unfolding path_def by code_simp
  have h: "\<forall>x. 0 \<le> x \<and> x \<le> 100 \<longrightarrow> \<bar>fl x - x\<bar> \<le> 1 / 100"
    by (simp add: fl_def)
  show ?thesis
    using checkpoint_refires_after_stale_read [OF l h] l
    unfolding path_def [symmetric] fl_def [symmetric] Let_def
    by simp
qed

section \<open>Properties of the grid and of the application\<close>

lemma tileType_on_path:
  "(int x, int y) \<in> pathSet path \<Longrightarrow> fst (tileType rnd k path x y) = Road"
  by (simp add: tileType_def)

lemma buildRow_spec:
  "\<exists>k' tiles. buildRow rnd path y xs (k, row) = (k', row @ tiles) \<and>
     length tiles = length xs \<and>
     (\<forall>i<length xs. (int (xs ! i), int y) \<in> pathSet path \<longrightarrow>
        buildingType (tiles ! i) = Road)"
proof (induction xs arbitrary: k row)
  case Nil
  then show ?case by simp
next
  case (Cons x xs)
  obtain btype k1 where t: "tileType rnd k path x y = (btype, k1)"
    by (cases "tileType rnd k path x y")
  obtain k' tiles where
    r: "buildRow rnd path y xs (k1, row @ [\<lparr>tx = x, ty = y, buildingType = btype\<rparr>]) =
          (k', (row @ [\<lparr>tx = x, ty = y, buildingType = btype\<rparr>]) @ tiles)"
    and l: "length tiles = length xs"
    and p: "\<forall>i<length xs. (int (xs ! i), int y) \<in> pathSet path \<longrightarrow>
        buildingType (tiles ! i) = Road"
    using Cons [of k1 "row @ [\<lparr>tx = x, ty = y, buildingType = btype\<rparr>]"] by blast
  have "\<forall>i<length (x # xs). (int ((x # xs) ! i), int y) \<in> pathSet path \<longrightarrow>
        buildingType ((\<lparr>tx = x, ty = y, buildingType = btype\<rparr> # tiles) ! i) = Road"
    using p t tileType_on_path [of x y path rnd k] by (auto simp: nth_Cons split: nat.splits)
  then show ?case
    using t r l
    by (intro exI [of _ k'] exI [of _ "\<lparr>tx = x, ty = y, buildingType = btype\<rparr> # tiles"]) simp
qed

lemma buildGrid_spec:
  "\<exists>k' rows'. buildGrid rnd path ys (k, rows) = (k', rows @ rows') \<and>
     length rows' = length ys \<and>
     (\<forall>j<length ys. length (rows' ! j) = GRID_SIZE \<and>
        (\<forall>x<GRID_SIZE. (int x, int (ys ! j)) \<in> pathSet path \<longrightarrow>
           buildingType (rows' ! j ! x) = Road))"
proof (induction ys arbitrary: k rows)
  case Nil
  then show ?case by simp
next
  case (Cons y ys)
  obtain k1 row where b: "buildRow rnd path y [0..<GRID_SIZE] (k, []) = (k1, row)"
    and lr: "length row = GRID_SIZE"
    and pr: "\<forall>x<GRID_SIZE. (int x, int y) \<in> pathSet path \<longrightarrow> buildingType (row ! x) = Road"
    using buildRow_spec [of rnd path y "[0..<GRID_SIZE]" k "[]"] by auto
  obtain k' rows' where
    r: "buildGrid rnd path ys (k1, rows @ [row]) = (k', (rows @ [row]) @ rows')"
    and l: "length rows' = length ys"
    and p: "\<forall>j<length ys. length (rows' ! j) = GRID_SIZE \<and>
        (\<forall>x<GRID_SIZE. (int x, int (ys ! j)) \<in> pathSet path \<longrightarrow>
           buildingType (rows' ! j ! x) = Road)"
    using Cons [of k1 "rows @ [row]"] by blast
  have "\<forall>j<length (y # ys). length ((row # rows') ! j) = GRID_SIZE \<and>
        (\<forall>x<GRID_SIZE. (int x, int ((y # ys) ! j)) \<in> pathSet path \<longrightarrow>
           buildingType ((row # rows') ! j ! x) = Road)"
    using p lr pr by (auto simp: nth_Cons split: nat.splits)
  then show ?case
    using b r l by (intro exI [of _ k'] exI [of _ "row # rows'"]) simp
qed

lemma initialApp_path:
  "initialPath (initialApp rnd) =
     snd (generateWindingPath rnd 0 \<lparr>px = 0, py = 14\<rparr> \<lparr>px = 14, py = 0\<rparr>)"
  by (simp add: initialApp_def createInitialState_def Let_def split: prod.splits)

lemma gridInv_initialApp: "gridInv (initialApp rnd)"
proof -
  obtain k path where g: "generateWindingPath rnd 0 \<lparr>px = 0, py = 14\<rparr> \<lparr>px = 14, py = 0\<rparr> = (k, path)"
    by (cases "generateWindingPath rnd 0 \<lparr>px = 0, py = 14\<rparr> \<lparr>px = 14, py = 0\<rparr>")
  obtain k' rows where b: "buildGrid rnd path [0..<GRID_SIZE] (k, []) = (k', rows)"
    and l: "length rows = GRID_SIZE"
    and p: "\<forall>j<GRID_SIZE. length (rows ! j) = GRID_SIZE \<and>
        (\<forall>x<GRID_SIZE. (int x, int j) \<in> pathSet path \<longrightarrow> buildingType (rows ! j ! x) = Road)"
    using buildGrid_spec [of rnd path "[0..<GRID_SIZE]" k "[]"] by auto
  have "initialApp rnd =
      \<lparr>grid = rows, initialPath = path, selectedTool = Commercial,
       activeCheckpointIndex = None, cycleKey = 0, cyclistKey = 0, cyclist = mountCyclist,
       renderedPaused = False\<rparr>"
    using g b by (simp add: initialApp_def createInitialState_def)
  then show ?thesis
    using l p by (simp add: gridInv_def)
qed

lemma isPath_iff:
  "list_ex (\<lambda>p. px p = int x \<and> py p = int y) path \<longleftrightarrow> (int x, int y) \<in> pathSet path"
  by (force simp: list_ex_iff pathSet_def)

lemma setTile_nth:
  assumes "y < length g" "x < length (g ! y)"
  shows "setTile g x y t ! y' ! x' = (if x' = x \<and> y' = y then t else g ! y' ! x')"
  using assms by (auto simp: setTile_def nth_list_update)

lemma setTile_shape:
  "length (setTile g x y t) = length g"
  "length (setTile g x y t ! y') = length (g ! y')"
proof -
  show "length (setTile g x y t) = length g"
    by (simp add: setTile_def)
  show "length (setTile g x y t ! y') = length (g ! y')"
  proof (cases "y < length g")
    case True
    then show ?thesis by (cases "y' = y") (simp_all add: setTile_def)
  next
    case False
    then show ?thesis by (simp add: setTile_def list_update_beyond)
  qed
qed

lemma handleTileClick_frame:
  "initialPath (handleTileClick x y s) = initialPath s"
  "selectedTool (handleTileClick x y s) = selectedTool s"
  "activeCheckpointIndex (handleTileClick x y s) = activeCheckpointIndex s"
  "cycleKey (handleTileClick x y s) = cycleKey s"
  "cyclistKey (handleTileClick x y s) = cyclistKey s"
  "cyclist (handleTileClick x y s) = cyclist s"
  "renderedPaused (handleTileClick x y s) = renderedPaused s"
  by (simp_all add: handleTileClick_def Let_def)

text \<open>What a click does to the grid in a state that satisfies the invariant.\<close>

lemma handleTileClick_grid:
  assumes "gridInv s" "x < GRID_SIZE" "y < GRID_SIZE"
  shows "grid (handleTileClick x y s) =
     (if selectedTool s = None' then
        (if (int x, int y) \<notin> pathSet (initialPath s)
         then setTile (grid s) x y ((grid s ! y ! x)\<lparr>buildingType := None'\<rparr>)
         else grid s)
      else
        (if buildingType (grid s ! y ! x) = None' \<and> (int x, int y) \<notin> pathSet (initialPath s)
         then setTile (grid s) x y ((grid s ! y ! x)\<lparr>buildingType := selectedTool s\<rparr>)
         else grid s))"
proof -
  have "(int x, int y) \<in> pathSet (initialPath s) \<Longrightarrow> buildingType (grid s ! y ! x) \<noteq> None'"
    using assms by (simp add: gridInv_def)
  then show ?thesis
    by (auto simp: handleTileClick_def Let_def isPath_iff)
qed

lemma gridInv_handleTileClick:
  assumes "gridInv s" "x < GRID_SIZE" "y < GRID_SIZE"
  shows "gridInv (handleTileClick x y s)"
proof -
  have sh: "y < length (grid s)" "x < length (grid s ! y)"
    using assms by (simp_all add: gridInv_def)
  have road: "\<And>x' y'. x' < GRID_SIZE \<Longrightarrow> y' < GRID_SIZE \<Longrightarrow>
      (int x', int y') \<in> pathSet (initialPath s) \<Longrightarrow> buildingType (grid s ! y' ! x') = Road"
    using assms(1) by (simp add: gridInv_def)
  have "buildingType (grid (handleTileClick x y s) ! y' ! x') = Road"
    if "x' < GRID_SIZE" "y' < GRID_SIZE" "(int x', int y') \<in> pathSet (initialPath s)" for x' y'
    using road [OF that] that(3)
    by (auto simp: handleTileClick_grid [OF assms] setTile_nth [OF sh])
  moreover have "length (grid (handleTileClick x y s)) = GRID_SIZE"
    using assms(1) by (simp add: handleTileClick_grid [OF assms] setTile_shape gridInv_def)
  moreover have "length (grid (handleTileClick x y s) ! y') = GRID_SIZE" if "y' < GRID_SIZE" for y'
    using assms(1) that by (simp add: handleTileClick_grid [OF assms] setTile_shape gridInv_def)
  ultimately show ?thesis
    using assms(1) by (simp add: gridInv_def handleTileClick_frame)
qed

lemma invoke_frame:
  "grid (foldl invoke s cbs) = grid s"
  "initialPath (foldl invoke s cbs) = initialPath s"
  "cycleKey (foldl invoke s cbs) = cycleKey s"
  "cyclistKey (foldl invoke s cbs) = cyclistKey s"
  "cyclist (foldl invoke s cbs) = cyclist s"
proof (induction cbs arbitrary: s)
  case Nil
  {
    case 1 show ?case by simp
  next
    case 2 show ?case by simp
  next
    case 3 show ?case by simp
  next
    case 4 show ?case by simp
  next
    case 5 show ?case by simp
  }
next
  case (Cons cb cbs)
  {
    case 1 show ?case using Cons(1) [of "invoke s cb"]
      by (cases cb) (simp_all add: handleReachCheckpoint_def handleCycleFinish_def)
  next
    case 2 show ?case using Cons(2) [of "invoke s cb"]
      by (cases cb) (simp_all add: handleReachCheckpoint_def handleCycleFinish_def)
  next
    case 3 show ?case using Cons(3) [of "invoke s cb"]
      by (cases cb) (simp_all add: handleReachCheckpoint_def handleCycleFinish_def)
  next
    case 4 show ?case using Cons(4) [of "invoke s cb"]
      by (cases cb) (simp_all add: handleReachCheckpoint_def handleCycleFinish_def)
  next
    case 5 show ?case using Cons(5) [of "invoke s cb"]
      by (cases cb) (simp_all add: handleReachCheckpoint_def handleCycleFinish_def)
  }
qed

lemma handle_grid_other:
  "grid (handle fl s (SelectTool t)) = grid s"
  "grid (handle fl s ContinueCycle) = grid s"
  "grid (handle fl s Restart) = grid s"
  "grid (handle fl s (Frame d)) = grid s"
  "grid (handle fl s Rerender) = grid s"
  by (simp_all add: handleContinueCycle_def handleRestart_def renderPaused_def commit_def
      invoke_frame split: prod.splits)

lemma handle_initialPath: "initialPath (handle fl s e) = initialPath s"
  by (cases e) (simp_all add: handleContinueCycle_def handleRestart_def renderPaused_def
      commit_def invoke_frame handleTileClick_frame split: prod.splits)

lemma renderCyclist_frame:
  "grid (renderCyclist s) = grid s"
  "initialPath (renderCyclist s) = initialPath s"
  "selectedTool (renderCyclist s) = selectedTool s"
  "activeCheckpointIndex (renderCyclist s) = activeCheckpointIndex s"
  "cycleKey (renderCyclist s) = cycleKey s"
  "cyclistKey (renderCyclist s) = cycleKey s"
  by (simp_all add: renderCyclist_def renderPaused_def)

lemma gridInv_step:
  assumes "gridInv s"
  shows "gridInv (step fl s e)"
proof -
  have "length (grid (handle fl s e)) = GRID_SIZE \<and>
     (\<forall>y<GRID_SIZE. length (grid (handle fl s e) ! y) = GRID_SIZE) \<and>
     (\<forall>x<GRID_SIZE. \<forall>y<GRID_SIZE. (int x, int y) \<in> pathSet (initialPath (handle fl s e)) \<longrightarrow>
        buildingType (grid (handle fl s e) ! y ! x) = Road)"
  proof (cases e)
    case (TileClick x y)
    show ?thesis
    proof (cases "y < length (grid s) \<and> x < length (grid s ! y)")
      case True
      then have "x < GRID_SIZE" "y < GRID_SIZE"
        using assms by (auto simp: gridInv_def)
      from gridInv_handleTileClick [OF assms this] show ?thesis
        using True TileClick by (simp add: gridInv_def)
    next
      case False
      then have "handle fl s e = s" using TileClick by auto
      then show ?thesis using assms by (simp add: gridInv_def)
    qed
  next
    case (SelectTool t)
    then show ?thesis using assms by (simp add: gridInv_def)
  next
    case ContinueCycle
    then show ?thesis
      using assms by (simp add: gridInv_def handleContinueCycle_def renderPaused_def)
  next
    case Restart
    then show ?thesis
      using assms by (simp add: gridInv_def handleRestart_def renderPaused_def)
  next
    case (Frame d)
    then show ?thesis
      using assms handle_grid_other(4) [of fl s d] handle_initialPath [of fl s e]
      by (simp add: gridInv_def)
  next
    case Rerender
    then show ?thesis
      using assms by (simp add: gridInv_def commit_def renderPaused_def)
  qed
  then show ?thesis
    by (simp add: gridInv_def step_def renderCyclist_frame)
qed

lemma exec_snoc: "exec fl s (es @ [e]) = step fl (exec fl s es) e"
  by (simp add: exec_def)

lemma gridInv_exec: "gridInv (exec fl (initialApp rnd) es)"
proof (induction es rule: rev_induct)
  case Nil
  show ?case by (simp add: exec_def gridInv_initialApp)
next
  case (snoc e es)
  then show ?case by (simp add: exec_snoc gridInv_step)
qed

lemma initialPath_exec: "initialPath (exec fl s es) = initialPath s"
proof (induction es rule: rev_induct)
  case Nil
  show ?case by (simp add: exec_def)
next
  case (snoc e es)
  then show ?case
    by (simp add: exec_snoc step_def renderCyclist_frame handle_initialPath)
qed

lemma loopBody_inBox:
  assumes "px cur \<noteq> px p2 \<or> py cur \<noteq> py p2"
    and "loopBody rnd p2 (k, cur) = (k', cur')"
    and "inBox lo hi cur" "inBox lo hi p2"
  shows "inBox lo hi cur'"
  using moveStep_cases [OF assms(1,2)] assms(3,4) by (auto simp: inBox_def)

lemma connectPoints_loop_inBox:
  "remaining p2 cur = n \<Longrightarrow> inBox lo hi cur \<Longrightarrow> inBox lo hi p2 \<Longrightarrow>
   \<forall>q\<in>set segment. inBox lo hi q \<Longrightarrow>
   \<forall>q\<in>set (snd (connectPoints_loop rnd p2 k cur segment)). inBox lo hi q"
proof (induction n arbitrary: k cur segment)
  case 0
  then have "\<not> (px cur \<noteq> px p2 \<or> py cur \<noteq> py p2)"
    by (simp add: remaining_0_iff)
  then show ?case
    using "0.prems"(4) by (subst connectPoints_loop.simps) simp
next
  case (Suc n)
  then have ne: "px cur \<noteq> px p2 \<or> py cur \<noteq> py p2"
    using remaining_0_iff [of p2 cur] by simp
  obtain k1 cur1 where b: "loopBody rnd p2 (k, cur) = (k1, cur1)"
    by (cases "loopBody rnd p2 (k, cur)")
  have r: "remaining p2 cur1 = n"
    using loopBody_remaining [OF ne b] Suc.prems by simp
  have c: "inBox lo hi cur1"
    using loopBody_inBox [OF ne b] Suc.prems by simp
  have "\<forall>q\<in>set (segment @ [cur1]). inBox lo hi q"
    using c Suc.prems(4) by simp
  from Suc.IH [OF r c Suc.prems(3) this, of k1] show ?case
    using ne b by (subst connectPoints_loop.simps) simp
qed

lemma connectSegments_inBox:
  "\<forall>q\<in>set ws. inBox lo hi q \<Longrightarrow> \<forall>q\<in>set fullPath. inBox lo hi q \<Longrightarrow>
   \<forall>q\<in>set (snd (connectSegments rnd k ws fullPath)). inBox lo hi q"
proof (induction rnd k ws fullPath rule: connectSegments.induct)
  case (1 rnd k p1 p2 ws fullPath)
  obtain k1 seg where c: "connectPoints rnd k p1 p2 = (k1, seg)"
    by (cases "connectPoints rnd k p1 p2")
  have "\<forall>q\<in>set seg. inBox lo hi q"
    using connectPoints_loop_inBox [OF refl, of lo hi p1 p2 "[]" rnd k] c "1.prems"(1)
    by (simp add: connectPoints_def)
  then have "\<forall>q\<in>set (fullPath @ seg). inBox lo hi q"
    using "1.prems"(2) by auto
  from "1.IH" [OF c [symmetric] _ this] show ?case
    using c "1.prems"(1) by simp
qed simp_all

lemma generateWindingPath_inGrid:
  "\<forall>q\<in>set (snd (generateWindingPath rnd k \<lparr>px = 0, py = 14\<rparr> \<lparr>px = 14, py = 0\<rparr>)). inBox 0 14 q"
  unfolding generateWindingPath_def
  by (rule connectSegments_inBox) (simp_all add: waypoints_def inBox_def)

text \<open>
  Claim C10. In every state reachable from the initial state by any sequence of events
  (tile clicks, tool selections, frames, renders, continue, restart), whatever the rounding
  of the arithmetic, the path is the generated one, and every tile whose coordinates lie on
  it has the building type Road. Every cell of the path is a tile of the grid.
\<close>

theorem path_tiles_stay_road:
  "(let s = exec fl (initialApp rnd) es in
      initialPath s = snd (generateWindingPath rnd 0 \<lparr>px = 0, py = 14\<rparr> \<lparr>px = 14, py = 0\<rparr>) \<and>
      (x < GRID_SIZE \<and> y < GRID_SIZE \<and> (int x, int y) \<in> pathSet (initialPath s) \<longrightarrow>
         buildingType (grid s ! y ! x) = Road) \<and>
      (p \<in> set (initialPath s) \<longrightarrow>
         0 \<le> px p \<and> px p < int GRID_SIZE \<and> 0 \<le> py p \<and> py p < int GRID_SIZE \<and>
         buildingType (grid s ! nat (py p) ! nat (px p)) = Road))"
proof -
  define s where "s = exec fl (initialApp rnd) es"
  have i: "gridInv s" unfolding s_def by (rule gridInv_exec)
  have ip: "initialPath s = snd (generateWindingPath rnd 0 \<lparr>px = 0, py = 14\<rparr> \<lparr>px = 14, py = 0\<rparr>)"
    unfolding s_def by (simp add: initialPath_exec initialApp_path)
  have a: "buildingType (grid s ! y ! x) = Road"
    if "x < GRID_SIZE" "y < GRID_SIZE" "(int x, int y) \<in> pathSet (initialPath s)" for x y
    using i that by (simp add: gridInv_def)
  have b: "0 \<le> px p \<and> px p < int GRID_SIZE \<and> 0 \<le> py p \<and> py p < int GRID_SIZE \<and>
         buildingType (grid s ! nat (py p) ! nat (px p)) = Road"
    if p: "p \<in> set (initialPath s)"
  proof -
    have bx: "inBox 0 14 p"
      using p generateWindingPath_inGrid [of rnd 0] unfolding ip by blast
    then have r: "nat (px p) < GRID_SIZE" "nat (py p) < GRID_SIZE"
      by (auto simp: inBox_def GRID_SIZE_def)
    have "(int (nat (px p)), int (nat (py p))) \<in> pathSet (initialPath s)"
      using p bx by (force simp: pathSet_def inBox_def)
    from a [OF r this] show ?thesis
      using bx by (simp add: inBox_def GRID_SIZE_def)
  qed
  show ?thesis
    unfolding Let_def s_def [symmetric] using ip a b by blast
qed

theorem path_tiles_stay_road_witness:
  "(let s = exec (\<lambda>x. x) (initialApp (\<lambda>n. 0))
              [TileClick 3 3, Frame 1, SelectTool None', Rerender, TileClick 0 14] in
      (0::nat) < GRID_SIZE \<and> (14::nat) < GRID_SIZE \<and>
      (int 0, int 14) \<in> pathSet (initialPath s) \<and>
      buildingType (grid s ! 14 ! 0) = Road \<and>
      \<lparr>px = 0, py = 14\<rparr> \<in> set (initialPath s) \<and>
      buildingType (grid s ! nat (py \<lparr>px = 0, py = 14\<rparr>) ! nat (px \<lparr>px = 0, py = 14\<rparr>)) = Road)"
proof -
  define s where "s = exec (\<lambda>x. x) (initialApp (\<lambda>n. 0))
      [TileClick 3 3, Frame 1, SelectTool None', Rerender, TileClick 0 14]"
  have h: "(0::nat) < GRID_SIZE" "(14::nat) < GRID_SIZE"
    by (simp_all add: GRID_SIZE_def)
  have m: "(int 0, int 14) \<in> pathSet (initialPath s)"
    unfolding s_def by code_simp
  have q: "\<lparr>px = 0, py = 14\<rparr> \<in> set (initialPath s)"
    unfolding s_def by code_simp
  show ?thesis
    using path_tiles_stay_road
        [where rnd = "\<lambda>n. 0" and fl = "\<lambda>x. x"
           and es = "[TileClick 3 3, Frame 1, SelectTool None', Rerender, TileClick 0 14]"
           and x = 0 and y = 14 and p = "\<lparr>px = 0, py = 14\<rparr>"]
      h m q
    unfolding Let_def s_def [symmetric] by blast
qed

text \<open>
  Claim C6. In every reachable state, a click on a tile of the grid with a building tool
  selected sets the type of the clicked tile to the selected type when the type of the tile
  is None and the tile is not on the path, and leaves the grid unchanged otherwise; a click
  with the bulldoze tool (None) sets the type of the clicked tile to None when the tile is
  not on the path, and leaves the grid unchanged otherwise. \<open>setTile\<close> replaces the one
  tile and keeps every other tile.
\<close>

theorem tile_click_rules:
  "(let s = exec fl (initialApp rnd) es; s' = step fl s (TileClick x y) in
      x < GRID_SIZE \<and> y < GRID_SIZE \<longrightarrow>
        (selectedTool s \<noteq> None' \<longrightarrow>
           grid s' =
             (if buildingType (grid s ! y ! x) = None' \<and> (int x, int y) \<notin> pathSet (initialPath s)
              then setTile (grid s) x y ((grid s ! y ! x)\<lparr>buildingType := selectedTool s\<rparr>)
              else grid s)) \<and>
        (selectedTool s = None' \<longrightarrow>
           grid s' =
             (if (int x, int y) \<notin> pathSet (initialPath s)
              then setTile (grid s) x y ((grid s ! y ! x)\<lparr>buildingType := None'\<rparr>)
              else grid s)) \<and>
        setTile (grid s) x y t ! y' ! x' = (if x' = x \<and> y' = y then t else grid s ! y' ! x'))"
proof -
  define s where "s = exec fl (initialApp rnd) es"
  have i: "gridInv s" unfolding s_def by (rule gridInv_exec)
  have ?thesis if xy: "x < GRID_SIZE" "y < GRID_SIZE"
  proof -
    have sh: "y < length (grid s)" "x < length (grid s ! y)"
      using i xy by (simp_all add: gridInv_def)
    then have "grid (step fl s (TileClick x y)) = grid (handleTileClick x y s)"
      by (simp add: step_def renderCyclist_frame)
    then show ?thesis
      unfolding Let_def s_def [symmetric]
      using handleTileClick_grid [OF i xy] setTile_nth [OF sh, of t y' x'] by simp
  qed
  then show ?thesis
    unfolding Let_def by blast
qed

theorem tile_click_rules_witness:
  "(let fl = (\<lambda>x. x);
        s = exec fl (initialApp (\<lambda>n. 0)) [SelectTool Residential];
        b = exec fl (initialApp (\<lambda>n. 0)) [SelectTool None']
    in (3::nat) < GRID_SIZE \<and> (0::nat) < GRID_SIZE \<and> (14::nat) < GRID_SIZE \<and>
       selectedTool s \<noteq> None' \<and> buildingType (grid s ! 3 ! 3) = None' \<and>
       (int 3, int 3) \<notin> pathSet (initialPath s) \<and>
       grid (step fl s (TileClick 3 3)) =
         setTile (grid s) 3 3 ((grid s ! 3 ! 3)\<lparr>buildingType := selectedTool s\<rparr>) \<and>
       (int 0, int 14) \<in> pathSet (initialPath s) \<and>
       grid (step fl s (TileClick 0 14)) = grid s \<and>
       selectedTool b = None' \<and> (int 0, int 14) \<in> pathSet (initialPath b) \<and>
       grid (step fl b (TileClick 0 14)) = grid b)"
proof -
  define fl :: rounding where "fl = (\<lambda>x. x)"
  define s where "s = exec fl (initialApp (\<lambda>n. 0)) [SelectTool Residential]"
  define b where "b = exec fl (initialApp (\<lambda>n. 0)) [SelectTool None']"
  have h: "(3::nat) < GRID_SIZE" "(0::nat) < GRID_SIZE" "(14::nat) < GRID_SIZE"
    by (simp_all add: GRID_SIZE_def)
  have t: "selectedTool s \<noteq> None'" "selectedTool b = None'"
    unfolding s_def b_def fl_def by code_simp+
  have n: "buildingType (grid s ! 3 ! 3) = None'"
    unfolding s_def fl_def by code_simp
  have m: "(int 3, int 3) \<notin> pathSet (initialPath s)"
    "(int 0, int 14) \<in> pathSet (initialPath s)"
    "(int 0, int 14) \<in> pathSet (initialPath b)"
    unfolding s_def b_def fl_def by code_simp+
  have 1: "grid (step fl s (TileClick 3 3)) =
         setTile (grid s) 3 3 ((grid s ! 3 ! 3)\<lparr>buildingType := selectedTool s\<rparr>)"
    using tile_click_rules [where x = 3 and y = 3 and rnd = "\<lambda>n. 0" and fl = fl
        and es = "[SelectTool Residential]"] h t n m
    unfolding Let_def s_def [symmetric] by simp
  have 2: "grid (step fl s (TileClick 0 14)) = grid s"
    using tile_click_rules [where x = 0 and y = 14 and rnd = "\<lambda>n. 0" and fl = fl
        and es = "[SelectTool Residential]"] h t m
    unfolding Let_def s_def [symmetric] by simp
  have 3: "grid (step fl b (TileClick 0 14)) = grid b"
    using tile_click_rules [where x = 0 and y = 14 and rnd = "\<lambda>n. 0" and fl = fl
        and es = "[SelectTool None']"] h t m
    unfolding Let_def b_def [symmetric] by simp
  show ?thesis
    unfolding Let_def fl_def [symmetric] s_def [symmetric] b_def [symmetric]
    using h t n m 1 2 3 by simp
qed

text \<open>
  Claim C7. In every reachable state (Running, Paused at a checkpoint or Finished, with or
  without a write of the frame callback that no render has taken in yet), the restart
  leaves a cyclist with progress 0, no written progress waiting for a render, the finished
  flag cleared and the guard of the last triggered checkpoint cleared (-1), which is
  rendered as not paused; it clears the active checkpoint and leaves the grid unchanged.
\<close>

theorem restart_resets_cyclist:
  "(let s = exec fl (initialApp rnd) es; s' = step fl s Restart in
      progress (cyclist s') = 0 \<and> \<not> hasFinished (cyclist s') \<and>
      lastTriggeredCheckpoint (cyclist s') = - 1 \<and>
      activeCheckpointIndex s' = None \<and>
      grid s' = grid s \<and>
      pendingProgress (cyclist s') = None \<and>
      \<not> renderedPaused s')"
proof -
  define s where "s = exec fl (initialApp rnd) es"
  have "cyclistKey s = cycleKey s"
    using gridInv_exec [of fl rnd es] by (simp add: gridInv_def s_def)
  then have "cyclistKey (handle fl s Restart) \<noteq> cycleKey (handle fl s Restart)"
    by (simp add: handleRestart_def renderPaused_def)
  then have "step fl s Restart =
      renderPaused ((handle fl s Restart)
        \<lparr>cyclistKey := cycleKey (handle fl s Restart), cyclist := mountCyclist\<rparr>)"
    by (simp add: step_def renderCyclist_def)
  then show ?thesis
    unfolding Let_def s_def [symmetric]
    by (simp add: handleRestart_def renderPaused_def mountCyclist_def)
qed

theorem restart_resets_cyclist_witness:
  "(let fl = (\<lambda>x. x);
        s = exec fl (initialApp (\<lambda>n. 0)) [Frame 5, Rerender, Frame 1];
        f = exec fl (initialApp (\<lambda>n. 0)) [Frame 40, Rerender]
    in activeCheckpointIndex s = Some 0 \<and> progress (cyclist s) = 5 * speed \<and>
       pendingProgress (cyclist s) = Some (6 * speed) \<and>
       lastTriggeredCheckpoint (cyclist s) = 7 \<and>
       progress (cyclist (step fl s Restart)) = 0 \<and>
       pendingProgress (cyclist (step fl s Restart)) = None \<and>
       lastTriggeredCheckpoint (cyclist (step fl s Restart)) = - 1 \<and>
       activeCheckpointIndex (step fl s Restart) = None \<and>
       grid (step fl s Restart) = grid s \<and>
       hasFinished (cyclist f) \<and> progress (cyclist f) = 46 \<and>
       \<not> hasFinished (cyclist (step fl f Restart)) \<and>
       progress (cyclist (step fl f Restart)) = 0)"
proof -
  define fl :: rounding where "fl = (\<lambda>x. x)"
  define s where "s = exec fl (initialApp (\<lambda>n. 0)) [Frame 5, Rerender, Frame 1]"
  define f where "f = exec fl (initialApp (\<lambda>n. 0)) [Frame 40, Rerender]"
  have a: "activeCheckpointIndex s = Some 0" "progress (cyclist s) = 5 * speed"
    "pendingProgress (cyclist s) = Some (6 * speed)"
    "lastTriggeredCheckpoint (cyclist s) = 7"
    unfolding s_def fl_def by code_simp+
  have b: "hasFinished (cyclist f)" "progress (cyclist f) = 46"
    unfolding f_def fl_def by code_simp+
  show ?thesis
    using restart_resets_cyclist [of fl "\<lambda>n. 0" "[Frame 5, Rerender, Frame 1]"]
      restart_resets_cyclist [of fl "\<lambda>n. 0" "[Frame 40, Rerender]"] a b
    unfolding Let_def fl_def [symmetric] s_def [symmetric] f_def [symmetric] by simp
qed

text \<open>
  The run of the cyclist that invokes \<^verbatim>\<open>onReachCheckpoint\<close> twice for one checkpoint, as a
  run of the application: the second frame comes before the render of the first, the card
  of checkpoint 0 is shown and dismissed, and the next frame opens it again.
\<close>

lemma checkpoint_card_reopens:
  "(let fl = (\<lambda>x. x);
        s = exec fl (initialApp (\<lambda>n. 0)) [Frame 6, Frame (11 / 2), Rerender, Frame 1];
        s' = step fl s ContinueCycle
    in activeCheckpointIndex s = Some 0 \<and> renderedPaused s \<and>
       activeCheckpointIndex s' = None \<and> \<not> renderedPaused s' \<and>
       activeCheckpointIndex (step fl s' (Frame (1 / 2))) = Some 0)"
  by code_simp

end
